theory Spec2Isabelle
  imports Main "HOL-Library.Char_ord" "HOL-Library.List_Lexorder" "HOL-Library.Multiset"
begin

section \<open>Data model of the resolver (list.ts) and the lock store (lock.ts)\<close>

text \<open>
  The file src/list.ts holds list.ts (lines 1-146) and, from line 147 on, lock.ts.
\<close>

text \<open>
  \<^verbatim>\<open>DependenciesMap\<close> is a JavaScript object from package names to range strings. Its
  entries are kept in enumeration order (\<^verbatim>\<open>Object.entries\<close>), a property read
  \<^verbatim>\<open>dependencies[name]\<close> is \<open>map_of\<close> (package names are taken not to be names of
  properties that every object inherits, such as \<^verbatim>\<open>constructor\<close>).
\<close>

type_synonym DependenciesMap = "(string \<times> string) list"

text \<open>One frame of \<^verbatim>\<open>DependencyStack\<close> (list.ts, lines 10-14).\<close>

record frame =
  f_name :: string
  f_version :: string
  f_dependencies :: DependenciesMap

type_synonym DependencyStack = "frame list"

text \<open>
  The registry manifest of one package (type \<^verbatim>\<open>Manifest\<close> of resolve.ts, used by
  \<^verbatim>\<open>getItem\<close> and \<^verbatim>\<open>collectDeps\<close>): version strings in key order, each with
  its optional \<^verbatim>\<open>dependencies\<close> and its \<^verbatim>\<open>dist\<close>.
\<close>

record dist =
  shasum :: string
  tarball :: string

record version_manifest =
  dependencies :: "DependenciesMap option"
  v_dist :: dist

type_synonym Manifest = "(string \<times> version_manifest) list"

text \<open>An entry of \<^verbatim>\<open>interface Lock\<close> (lock.ts).\<close>

record lock_entry =
  l_version :: string
  l_url :: string
  l_shasum :: string
  l_dependencies :: DependenciesMap

type_synonym Lock = "(string \<times> lock_entry) list"

text \<open>A binding of \<^verbatim>\<open>topLevel\<close> (list.ts, lines 21-23).\<close>

record top_entry =
  t_url :: string
  t_version :: string

text \<open>
  An element of \<^verbatim>\<open>unsatisfied\<close> is the object literal that \<^verbatim>\<open>collectDeps\<close> pushes,
  kept as the list of its properties in the order the literal writes them, so that the
  set of properties of an entry is a value of the model.
\<close>

type_synonym js_object = "(string \<times> string) list"

text \<open>
  The module-level state of list.ts and lock.ts that a run mutates: \<^verbatim>\<open>topLevel\<close>
  (created with \<^verbatim>\<open>Object.create(null)\<close>, so a partial map without inherited keys),
  \<^verbatim>\<open>unsatisfied\<close> and \<^verbatim>\<open>newLock\<close> (in insertion order).
\<close>

record state =
  topLevel :: "string \<rightharpoonup> top_entry"
  unsatisfied :: "js_object list"
  newLock :: Lock

text \<open>
  What a run only reads: the function \<^verbatim>\<open>satisfies\<close> of the external \<^verbatim>\<open>semver\<close>
  package, the registry behind \<^verbatim>\<open>resolve\<close> (a finite table; a name it lacks makes
  \<^verbatim>\<open>resolve\<close> reject), and \<^verbatim>\<open>oldLock\<close>. The other function that list.ts asks of
  \<^verbatim>\<open>semver\<close>, \<^verbatim>\<open>maxSatisying\<close> in line 40, is not among them: the package exports
  \<^verbatim>\<open>maxSatisfying\<close> and nothing under the name the source writes.
\<close>

record env =
  satisfies :: "string \<Rightarrow> string \<Rightarrow> bool"
  registry :: "(string \<times> Manifest) list"
  oldLock :: Lock

datatype error = NoMatchingVersion | TypeError | RegistryError

section \<open>JavaScript array and object primitives used by the source\<close>

text \<open>\<^verbatim>\<open>Array.prototype.findIndex\<close>: the first index whose element passes, or -1.\<close>

fun findIndex_from :: "('a \<Rightarrow> bool) \<Rightarrow> int \<Rightarrow> 'a list \<Rightarrow> int" where
  "findIndex_from P i [] = -1"
| "findIndex_from P i (x # xs) = (if P x then i else findIndex_from P (i + 1) xs)"

definition findIndex :: "('a \<Rightarrow> bool) \<Rightarrow> 'a list \<Rightarrow> int" where
  "findIndex P xs = findIndex_from P 0 xs"

text \<open>
  \<^verbatim>\<open>Array.prototype.slice(start)\<close>: a negative start counts from the end of the
  array (and stops at its beginning), a start beyond the end gives the empty array.
\<close>

definition js_slice :: "int \<Rightarrow> 'a list \<Rightarrow> 'a list" where
  "js_slice start xs =
     (if start < 0 then drop (nat (max (int (length xs) + start) 0)) xs
      else drop (nat start) xs)"

text \<open>\<^verbatim>\<open>Array.prototype.join(sep)\<close> on an array of strings.\<close>

fun js_join :: "string \<Rightarrow> string list \<Rightarrow> string" where
  "js_join sep [] = []"
| "js_join sep [x] = x"
| "js_join sep (x # y # ys) = x @ sep @ js_join sep (y # ys)"

text \<open>\<^verbatim>\<open>stack.at(-1)\<close>: the last element, \<^verbatim>\<open>undefined\<close> on the empty array.\<close>

definition at_last :: "'a list \<Rightarrow> 'a option" where
  "at_last xs = (if xs = [] then None else Some (last xs))"

text \<open>
  \<^verbatim>\<open>obj[key] = value\<close> on an object with string keys: an existing property keeps its
  place, a new one goes last.
\<close>

fun setProp :: "string \<Rightarrow> 'v \<Rightarrow> (string \<times> 'v) list \<Rightarrow> (string \<times> 'v) list" where
  "setProp k v [] = [(k, v)]"
| "setProp k v (p # ps) = (if fst p = k then (k, v) # ps else p # setProp k v ps)"

section \<open>The conflict scan and the cycle test (list.ts, lines 96-114)\<close>

text \<open>
  \<^verbatim>\<open>checkStackDependencies\<close>: the callback returns \<^verbatim>\<open>true\<close> when
  \<^verbatim>\<open>dependencies[name]\<close> is falsy (absent, or the empty string) and the result of
  \<^verbatim>\<open>semver.satisfies(version, semverRange)\<close> otherwise; \<^verbatim>\<open>findIndex\<close> returns the
  first index at which the callback returns \<^verbatim>\<open>true\<close>.
\<close>

definition frame_passes :: "env \<Rightarrow> string \<Rightarrow> string \<Rightarrow> frame \<Rightarrow> bool" where
  "frame_passes e name version fr =
     (case map_of (f_dependencies fr) name of
        None \<Rightarrow> True
      | Some semverRange \<Rightarrow>
          if semverRange = [] then True else satisfies e version semverRange)"

definition checkStackDependencies :: "env \<Rightarrow> string \<Rightarrow> string \<Rightarrow> DependencyStack \<Rightarrow> int" where
  "checkStackDependencies e name version stack = findIndex (frame_passes e name version) stack"

definition hasCirculation :: "env \<Rightarrow> string \<Rightarrow> string \<Rightarrow> DependencyStack \<Rightarrow> bool" where
  "hasCirculation e name rng stack =
     list_ex (\<lambda>item. f_name item = name \<and> satisfies e (f_version item) rng) stack"

text \<open>
  An instance of \<^verbatim>\<open>semver.satisfies\<close> for the fragment used in the concrete runs
  below: versions are plain \<^verbatim>\<open>X.Y.Z\<close> strings, and a range is either empty (any
  version) or one exact version. On this fragment \<^verbatim>\<open>satisfies(v, r)\<close> holds when
  \<open>r\<close> is empty or equal to \<open>v\<close>.
\<close>

definition exact_satisfies :: "string \<Rightarrow> string \<Rightarrow> bool" where
  "exact_satisfies v r = (r = [] \<or> v = r)"

definition exact_env :: "(string \<times> Manifest) list \<Rightarrow> Lock \<Rightarrow> env" where
  "exact_env reg old = \<lparr>satisfies = exact_satisfies, registry = reg, oldLock = old\<rparr>"

section \<open>The lock store (lock.ts)\<close>

text \<open>
  \<^verbatim>\<open>updateOrCreate\<close>: a missing key gets a fresh empty object, then
  \<^verbatim>\<open>Object.assign\<close> writes the four properties of \<open>info\<close> over the entry, which
  keeps its place among the keys of \<^verbatim>\<open>newLock\<close>.
\<close>

definition assign_entry :: "lock_entry \<Rightarrow> lock_entry \<Rightarrow> lock_entry" where
  "assign_entry target info =
     target\<lparr>l_version := l_version info, l_url := l_url info,
            l_shasum := l_shasum info, l_dependencies := l_dependencies info\<rparr>"

definition updateOrCreate :: "string \<Rightarrow> lock_entry \<Rightarrow> Lock \<Rightarrow> Lock" where
  "updateOrCreate name info lk =
     (case map_of lk name of
        None \<Rightarrow> lk @ [(name, info)]
      | Some target \<Rightarrow> setProp name (assign_entry target info) lk)"

text \<open>The key \<^verbatim>\<open>`${name}@${constraint}`\<close> of both locks.\<close>

definition lock_key :: "string \<Rightarrow> string \<Rightarrow> string" where
  "lock_key name constraint = name @ ''@'' @ constraint"

text \<open>
  \<^verbatim>\<open>getItem\<close>: \<^verbatim>\<open>null\<close> when \<^verbatim>\<open>oldLock\<close> has no entry under the key, otherwise a
  manifest with the one key \<^verbatim>\<open>item.version\<close>.
\<close>

definition getItem :: "Lock \<Rightarrow> string \<Rightarrow> string \<Rightarrow> Manifest option" where
  "getItem old name constraint =
     (case map_of old (lock_key name constraint) of
        None \<Rightarrow> None
      | Some item \<Rightarrow>
          Some [(l_version item,
                 \<lparr>dependencies = Some (l_dependencies item),
                  v_dist = \<lparr>shasum = l_shasum item, tarball = l_url item\<rparr>\<rparr>)])"

section \<open>The traversal \<^verbatim>\<open>collectDeps\<close> (list.ts, lines 27-95)\<close>

text \<open>
  Lines 32-34: \<^verbatim>\<open>lock.getItem(name, constraint) || (await resolve(name))\<close>. The
  registry is read only when \<^verbatim>\<open>getItem\<close> returns \<^verbatim>\<open>null\<close>.
\<close>

definition acquire :: "env \<Rightarrow> string \<Rightarrow> string \<Rightarrow> error + Manifest" where
  "acquire e name constraint =
     (case getItem (oldLock e) name constraint of
        Some fromLock \<Rightarrow> Inr fromLock
      | None \<Rightarrow>
          (case map_of (registry e) name of
             None \<Rightarrow> Inl RegistryError
           | Some manifest \<Rightarrow> Inr manifest))"

text \<open>
  Lines 38-41. For a falsy (empty) constraint \<^verbatim>\<open>matched\<close> is the last key of the
  manifest, \<^verbatim>\<open>undefined\<close> (here \<open>None\<close>) when it has no key. For a truthy
  constraint line 40 calls \<^verbatim>\<open>semver.maxSatisying(versions, constraint)\<close>: the
  property does not exist in \<^verbatim>\<open>semver\<close>, its value is \<^verbatim>\<open>undefined\<close>, and the call
  throws a TypeError.
\<close>

definition pickVersion :: "Manifest \<Rightarrow> string \<Rightarrow> error + string option" where
  "pickVersion manifest constraint =
     (let versions = map fst manifest in
      if constraint = [] then Inr (at_last versions)
      else Inl TypeError)"

text \<open>
  Lines 48-68, the placement. \<open>Return\<close> is the \<^verbatim>\<open>return\<close> of line 52, \<open>Throw\<close>
  a property read on \<^verbatim>\<open>undefined\<close> (\<^verbatim>\<open>matchedManifest.dist\<close> when the manifest
  has no key \<^verbatim>\<open>matched\<close>, \<^verbatim>\<open>stack.at(-1)!.name\<close> on the empty stack), \<open>Next\<close>
  the state with which line 70 goes on.
\<close>

datatype completion = Return | Throw error | Next state

definition placement ::
  "env \<Rightarrow> string \<Rightarrow> string \<Rightarrow> string \<Rightarrow> version_manifest option \<Rightarrow> DependencyStack \<Rightarrow> state
     \<Rightarrow> completion" where
  "placement e name constraint matched matchedManifest stack st =
     (case topLevel st name of
        None \<Rightarrow>
          (case matchedManifest of
             None \<Rightarrow> Throw TypeError
           | Some m \<Rightarrow>
               Next (st\<lparr>topLevel := (topLevel st)
                  (name \<mapsto> \<lparr>t_url = tarball (v_dist m), t_version = matched\<rparr>)\<rparr>))
      | Some t \<Rightarrow>
          if satisfies e (t_version t) constraint then
            (let conflictIndex = checkStackDependencies e name matched stack in
             if conflictIndex = -1 then Return
             else
               (case matchedManifest of
                  None \<Rightarrow> Throw TypeError
                | Some m \<Rightarrow>
                    Next (st\<lparr>unsatisfied := unsatisfied st @
                      [[(''name'', name),
                        (''parent'',
                           js_join ''/node_modules/''
                             (js_slice (conflictIndex - 2) (map f_name stack))),
                        (''url'', tarball (v_dist m))]]\<rparr>)))
          else
            (case at_last stack of
               None \<Rightarrow> Throw TypeError
             | Some parent \<Rightarrow>
                 (case matchedManifest of
                    None \<Rightarrow> Throw TypeError
                  | Some m \<Rightarrow>
                      Next (st\<lparr>unsatisfied := unsatisfied st @
                        [[(''name'', name),
                          (''parent'', f_name parent),
                          (''url'', tarball (v_dist m))]]\<rparr>))))"

text \<open>
  \<^verbatim>\<open>Promise.all(xs.map(f))\<close> over an \<^verbatim>\<open>async\<close> function \<open>f\<close>: every call is made,
  in order, also after one of them has failed (a failure inside an \<^verbatim>\<open>async\<close>
  function rejects its promise and does not stop the \<^verbatim>\<open>map\<close>); the outcome is the list
  of results, or the first failure. The calls thread the state they share; \<open>None\<close>
  is a call that has not returned within the recursion depth granted.

  A call runs here to its end before the next one starts. This is the execution of the
  source when the manifests come from the old lock: \<^verbatim>\<open>collectDeps\<close> then reaches no
  \<^verbatim>\<open>await\<close> before it has made its recursive calls, and what follows its
  \<^verbatim>\<open>await\<close> changes no state. When \<^verbatim>\<open>resolve\<close> is awaited, the parts of sibling
  calls that follow it run in the order in which the registry answers, of which this is
  one; between two such parts no other code runs, so what is proved below of one placement
  and one lock update holds in every order.
\<close>

definition settle :: "error + 'r \<Rightarrow> error + 'r list \<Rightarrow> error + 'r list" where
  "settle r rs =
     (case r of
        Inl err \<Rightarrow> Inl err
      | Inr v \<Rightarrow> (case rs of Inl err \<Rightarrow> Inl err | Inr vs \<Rightarrow> Inr (v # vs)))"

fun promise_all ::
  "('a \<Rightarrow> 's \<Rightarrow> ((error + 'r) \<times> 's) option) \<Rightarrow> 'a list \<Rightarrow> 's \<Rightarrow> ((error + 'r list) \<times> 's) option" where
  "promise_all f [] s = Some (Inr [], s)"
| "promise_all f (x # xs) s =
     (case f x s of
        None \<Rightarrow> None
      | Some (r, s1) \<Rightarrow>
          (case promise_all f xs s1 of
             None \<Rightarrow> None
           | Some (rs, s2) \<Rightarrow> Some (settle r rs, s2)))"

type_synonym collect_result = "(string \<times> string) option"
type_synonym traversal = "DependencyStack \<times> state"

text \<open>Line 70: \<^verbatim>\<open>matchedManifest.dependencies ?? {}\<close>.\<close>

definition manifest_deps :: "version_manifest \<Rightarrow> DependenciesMap" where
  "manifest_deps m = (case dependencies m of None \<Rightarrow> [] | Some d \<Rightarrow> d)"

text \<open>
  Lines 70-84 for a demand whose placement went on: the lock update under the key of
  the requested constraint and the push of the frame on the stack. An object is always
  truthy, so the test of line 79 always succeeds.
\<close>

definition lock_and_push ::
  "string \<Rightarrow> string \<Rightarrow> string \<Rightarrow> version_manifest \<Rightarrow> traversal \<Rightarrow> traversal" where
  "lock_and_push name constraint matched m tr =
     (fst tr @ [\<lparr>f_name = name, f_version = matched, f_dependencies = manifest_deps m\<rparr>],
      (snd tr)\<lparr>newLock := updateOrCreate (lock_key name constraint)
                 \<lparr>l_version = matched, l_url = tarball (v_dist m),
                  l_shasum = shasum (v_dist m), l_dependencies = manifest_deps m\<rparr>
                 (newLock (snd tr))\<rparr>)"

text \<open>
  Lines 85-94: the filter of the dependencies against the stack that already holds the
  new frame, the recursive calls on that same array, and the value returned to a caller
  that passed the empty constraint. \<open>rec\<close> is the recursive call.
\<close>

definition descend ::
  "(string \<Rightarrow> string \<Rightarrow> traversal \<Rightarrow> ((error + collect_result) \<times> traversal) option)
     \<Rightarrow> env \<Rightarrow> string \<Rightarrow> string \<Rightarrow> string \<Rightarrow> DependenciesMap \<Rightarrow> traversal
     \<Rightarrow> ((error + collect_result) \<times> traversal) option" where
  "descend rec e name constraint matched deps tr =
     (let children = filter (\<lambda>(dep, rng). \<not> hasCirculation e dep rng (fst tr)) deps
      in case promise_all (\<lambda>(dep, rng). rec dep rng) children tr of
           None \<Rightarrow> None
         | Some (Inl err, tr3) \<Rightarrow> Some (Inl err, tr3)
         | Some (Inr _, tr3) \<Rightarrow>
             Some (Inr (if constraint = [] then Some (name, ''^'' @ matched) else None), tr3))"

text \<open>
  \<^verbatim>\<open>collectDeps\<close>, bounded in its recursion depth by the first argument. The stack is
  the one array that a root call creates and all its descendants push to; it is never
  popped, so the model returns it with the state.
\<close>

primrec collectDeps ::
  "nat \<Rightarrow> env \<Rightarrow> string \<Rightarrow> string \<Rightarrow> traversal \<Rightarrow> ((error + collect_result) \<times> traversal) option" where
  "collectDeps 0 = (\<lambda>e name constraint tr. None)"
| "collectDeps (Suc fuel) = (\<lambda>e name constraint tr.
     (case acquire e name constraint of
        Inl err \<Rightarrow> Some (Inl err, tr)
      | Inr manifest \<Rightarrow>
          (case pickVersion manifest constraint of
             Inl err \<Rightarrow> Some (Inl err, tr)
           | Inr None \<Rightarrow> Some (Inl NoMatchingVersion, tr)
           | Inr (Some matched) \<Rightarrow>
               if matched = [] then Some (Inl NoMatchingVersion, tr)
               else
                 (case placement e name constraint matched (map_of manifest matched)
                         (fst tr) (snd tr) of
                    Return \<Rightarrow> Some (Inr None, tr)
                  | Throw err \<Rightarrow> Some (Inl err, tr)
                  | Next st1 \<Rightarrow>
                      (case map_of manifest matched of
                         None \<Rightarrow> Some (Inl TypeError, (fst tr, st1))
                       | Some m \<Rightarrow>
                           descend (collectDeps fuel e) e name constraint matched
                             (manifest_deps m)
                             (lock_and_push name constraint matched m (fst tr, st1)))))))"

section \<open>The exported resolver (list.ts, lines 116-146)\<close>

record PackageJson =
  pj_dependencies :: "DependenciesMap option"
  pj_devDependencies :: "DependenciesMap option"

text \<open>
  A call \<^verbatim>\<open>collectDeps(...pair)\<close> from the project manifest: the stack parameter takes
  its default, a fresh empty array, which nobody reads after the call.
\<close>

definition root_call ::
  "nat \<Rightarrow> env \<Rightarrow> string \<times> string \<Rightarrow> state \<Rightarrow> ((error + collect_result) \<times> state) option" where
  "root_call fuel e pair st =
     (case collectDeps fuel e (fst pair) (snd pair) ([], st) of
        None \<Rightarrow> None
      | Some (r, tr) \<Rightarrow> Some (r, snd tr))"

text \<open>
  \<^verbatim>\<open>.filter(Boolean).forEach((item) => (deps[item.name] = item.version))\<close>: every
  result that is not \<^verbatim>\<open>undefined\<close> overwrites the range of its name.
\<close>

definition rewrite_ranges :: "collect_result list \<Rightarrow> DependenciesMap \<Rightarrow> DependenciesMap" where
  "rewrite_ranges items deps =
     fold (\<lambda>item d. case item of None \<Rightarrow> d | Some (n, v) \<Rightarrow> setProp n v d) items deps"

definition resolve_section ::
  "nat \<Rightarrow> env \<Rightarrow> DependenciesMap option \<Rightarrow> state
     \<Rightarrow> ((error + DependenciesMap option) \<times> state) option" where
  "resolve_section fuel e section st =
     (case section of
        None \<Rightarrow> Some (Inr None, st)
      | Some deps \<Rightarrow>
          (case promise_all (root_call fuel e) deps st of
             None \<Rightarrow> None
           | Some (Inl err, st1) \<Rightarrow> Some (Inl err, st1)
           | Some (Inr items, st1) \<Rightarrow> Some (Inr (Some (rewrite_ranges items deps)), st1)))"

text \<open>
  The default export of list.ts: first the \<^verbatim>\<open>dependencies\<close> of the project manifest,
  then, once all of them have returned, its \<^verbatim>\<open>devDependencies\<close>. The plan
  \<^verbatim>\<open>{ topLevel, unsatisfied }\<close> it returns is the module state, returned here with
  the rewritten manifest. A failure of the first section leaves the second one out.
\<close>

definition list_default ::
  "nat \<Rightarrow> env \<Rightarrow> PackageJson \<Rightarrow> state \<Rightarrow> ((error + PackageJson) \<times> state) option" where
  "list_default fuel e rootManifest st =
     (case resolve_section fuel e (pj_dependencies rootManifest) st of
        None \<Rightarrow> None
      | Some (Inl err, st1) \<Rightarrow> Some (Inl err, st1)
      | Some (Inr deps1, st1) \<Rightarrow>
          (case resolve_section fuel e (pj_devDependencies rootManifest) st1 of
             None \<Rightarrow> None
           | Some (Inl err, st2) \<Rightarrow> Some (Inl err, st2)
           | Some (Inr devs1, st2) \<Rightarrow>
               Some (Inr \<lparr>pj_dependencies = deps1, pj_devDependencies = devs1\<rparr>, st2)))"

text \<open>The module state when the process starts.\<close>

definition initial_state :: state where
  "initial_state = \<lparr>topLevel = Map.empty, unsatisfied = [], newLock = []\<rparr>"

section \<open>Writing the lock (lock.ts, \<^verbatim>\<open>writeLock\<close>)\<close>

text \<open>
  The value handed to \<^verbatim>\<open>yaml.dump\<close>: strings and objects with their properties in
  enumeration order. An entry of \<^verbatim>\<open>newLock\<close> starts as an empty object and receives
  \<^verbatim>\<open>version\<close>, \<^verbatim>\<open>url\<close>, \<^verbatim>\<open>shasum\<close> and \<^verbatim>\<open>dependencies\<close> in this order.
\<close>

datatype yaml = YString string | YMap "(string \<times> yaml) list"

definition deps_yaml :: "DependenciesMap \<Rightarrow> yaml" where
  "deps_yaml d = YMap (map (\<lambda>kv. (fst kv, YString (snd kv))) d)"

definition entry_yaml :: "lock_entry \<Rightarrow> yaml" where
  "entry_yaml item =
     YMap [(''version'', YString (l_version item)),
           (''url'', YString (l_url item)),
           (''shasum'', YString (l_shasum item)),
           (''dependencies'', deps_yaml (l_dependencies item))]"

definition lock_yaml :: "Lock \<Rightarrow> yaml" where
  "lock_yaml lk = YMap (map (\<lambda>kv. (fst kv, entry_yaml (snd kv))) lk)"

text \<open>
  Modelled from the spec: \<^verbatim>\<open>utils.sortKeys\<close>, whose file utils.ts is not among the
  sources. The specification has \<^verbatim>\<open>writeLock\<close> serialize "with keys and nested maps in
  deterministic (sorted) order" and the lock file "keys recursively sorted": the
  properties of an object are put in ascending order of their keys, at every depth.
\<close>

fun sortKeys :: "yaml \<Rightarrow> yaml" where
  "sortKeys (YString s) = YString s"
| "sortKeys (YMap kvs) = YMap (sort_key fst (map (\<lambda>kv. (fst kv, sortKeys (snd kv))) kvs))"

text \<open>
  \<^verbatim>\<open>writeLock\<close>: the string written to the lock file. \<open>dump\<close> is \<^verbatim>\<open>yaml.dump\<close> of
  the external js-yaml package with the option \<^verbatim>\<open>noRefs\<close>, a function of the value
  it is given.
\<close>

definition writeLock :: "(yaml \<Rightarrow> string) \<Rightarrow> Lock \<Rightarrow> string" where
  "writeLock dump lk = dump (sortKeys (lock_yaml lk))"

text \<open>An object whose keys are in ascending order at every depth.\<close>

fun keys_sorted :: "yaml \<Rightarrow> bool" where
  "keys_sorted (YString s) = True"
| "keys_sorted (YMap kvs) =
     (sorted (map fst kvs) \<and> list_all (\<lambda>kv. keys_sorted (snd kv)) kvs)"

section \<open>The demands of a finite registry\<close>

text \<open>
  Every pair of a dependency name and its range that a manifest of the registry or an
  entry of the old lock lists: the demands a traversal can recurse into.
\<close>

definition demand_pairs :: "env \<Rightarrow> (string \<times> string) list" where
  "demand_pairs e =
     concat (map (\<lambda>pkg. concat (map (\<lambda>ver. manifest_deps (snd ver)) (snd pkg))) (registry e))
     @ concat (map (\<lambda>kv. l_dependencies (snd kv)) (oldLock e))"

text \<open>The demands that no frame of a stack covers (those \<^verbatim>\<open>hasCirculation\<close> lets through).\<close>

definition uncovered :: "env \<Rightarrow> DependencyStack \<Rightarrow> (string \<times> string) set" where
  "uncovered e stack = {p \<in> set (demand_pairs e). \<not> hasCirculation e (fst p) (snd p) stack}"

section \<open>Concrete registries and project manifests\<close>

definition pkg :: "string \<Rightarrow> DependenciesMap \<Rightarrow> version_manifest" where
  "pkg url deps = \<lparr>dependencies = Some deps, v_dist = \<lparr>shasum = ''0a'', tarball = url\<rparr>\<rparr>"

text \<open>
  A chain \<open>a \<rightarrow> b \<rightarrow> c \<rightarrow> d\<close>, every package with the one version 1.0.0 and
  every dependency without a range.
\<close>

definition chain_registry :: "(string \<times> Manifest) list" where
  "chain_registry =
     [(''a'', [(''1.0.0'', pkg ''a.tgz'' [(''b'', [])])]),
      (''b'', [(''1.0.0'', pkg ''b.tgz'' [(''c'', [])])]),
      (''c'', [(''1.0.0'', pkg ''c.tgz'' [(''d'', [])])]),
      (''d'', [(''1.0.0'', pkg ''d.tgz'' [])])]"

text \<open>
  The project requires \<open>d\<close> at run time and \<open>a\<close> for development, both without a
  range: \<open>d\<close> is bound at top level before the traversal of the chain starts. The
  second manifest is the first one after the run.
\<close>

definition chain_root :: PackageJson where
  "chain_root =
     \<lparr>pj_dependencies = Some [(''d'', [])], pj_devDependencies = Some [(''a'', [])]\<rparr>"

definition chain_root_rewritten :: PackageJson where
  "chain_root_rewritten =
     \<lparr>pj_dependencies = Some [(''d'', ''^1.0.0'')],
      pj_devDependencies = Some [(''a'', ''^1.0.0'')]\<rparr>"

text \<open>One package \<open>a\<close> without dependencies, in versions 1.0.0 and 2.0.0.\<close>

definition single_registry :: "(string \<times> Manifest) list" where
  "single_registry =
     [(''a'', [(''1.0.0'', pkg ''a-1.tgz'' []), (''2.0.0'', pkg ''a-2.tgz'' [])])]"

text \<open>
  A mutual cycle \<open>a \<rightarrow> b \<rightarrow> a\<close> and a package \<open>s\<close> that depends on itself.
\<close>

definition cycle_registry :: "(string \<times> Manifest) list" where
  "cycle_registry =
     [(''a'', [(''1.0.0'', pkg ''a.tgz'' [(''b'', [])])]),
      (''b'', [(''1.0.0'', pkg ''b.tgz'' [(''a'', [])])]),
      (''s'', [(''1.0.0'', pkg ''s.tgz'' [(''s'', [])])])]"

definition cycle_root :: PackageJson where
  "cycle_root =
     \<lparr>pj_dependencies = Some [(''a'', []), (''s'', [])],
      pj_devDependencies = None\<rparr>"

text \<open>The stack of the chain when the traversal reaches the demand of \<open>c\<close> for \<open>d\<close>.\<close>

definition chain_stack :: DependencyStack where
  "chain_stack =
     [\<lparr>f_name = ''a'', f_version = ''1.0.0'', f_dependencies = [(''b'', [])]\<rparr>,
      \<lparr>f_name = ''b'', f_version = ''1.0.0'', f_dependencies = [(''c'', [])]\<rparr>,
      \<lparr>f_name = ''c'', f_version = ''1.0.0'', f_dependencies = [(''d'', [])]\<rparr>]"

text \<open>The module state once \<open>a\<close> is bound at top level in version 1.0.0.\<close>

definition a_bound_state :: state where
  "a_bound_state =
     \<lparr>topLevel = [''a'' \<mapsto> \<lparr>t_url = ''a-1.tgz'', t_version = ''1.0.0''\<rparr>],
      unsatisfied = [], newLock = []\<rparr>"

definition both_sections :: "string \<Rightarrow> string \<Rightarrow> PackageJson" where
  "both_sections r1 r2 =
     \<lparr>pj_dependencies = Some [(''a'', r1)], pj_devDependencies = Some [(''a'', r2)]\<rparr>"

text \<open>
  Two old locks for \<open>a\<close>: one pins the unconstrained demand to 1.0.0 while the registry
  also has 2.0.0; the other pins the demand \<^verbatim>\<open>^1.0.0\<close> to 1.2.3, with a registry that
  has since added 1.4.0, and a project that requires \<open>a\<close> in that range.
\<close>

definition pinned_lock :: Lock where
  "pinned_lock =
     [(''a@'', \<lparr>l_version = ''1.0.0'', l_url = ''a-1.tgz'', l_shasum = ''0a'',
                l_dependencies = []\<rparr>)]"

definition caret_lock :: Lock where
  "caret_lock =
     [(''a@^1.0.0'', \<lparr>l_version = ''1.2.3'', l_url = ''a-1.2.3.tgz'', l_shasum = ''0a'',
                      l_dependencies = []\<rparr>)]"

definition caret_registry :: "(string \<times> Manifest) list" where
  "caret_registry =
     [(''a'', [(''1.2.3'', pkg ''a-1.2.3.tgz'' []), (''1.4.0'', pkg ''a-1.4.0.tgz'' [])])]"

definition caret_root :: PackageJson where
  "caret_root = \<lparr>pj_dependencies = Some [(''a'', ''^1.0.0'')], pj_devDependencies = None\<rparr>"

text \<open>The manifest that \<^verbatim>\<open>getItem\<close> builds from a lock entry.\<close>

definition locked_manifest :: "lock_entry \<Rightarrow> Manifest" where
  "locked_manifest item =
     [(l_version item,
       \<lparr>dependencies = Some (l_dependencies item),
        v_dist = \<lparr>shasum = l_shasum item, tarball = l_url item\<rparr>\<rparr>)]"

text \<open>The properties of an element of \<^verbatim>\<open>unsatisfied\<close>, in order.\<close>

definition has_name_parent_url :: "js_object \<Rightarrow> bool" where
  "has_name_parent_url obj = (map fst obj = [''name'', ''parent'', ''url''])"

text \<open>
  What a lock holds, whatever the order of its keys: every key with the version, URL and
  shasum of its entry and the set of its dependency ranges. A JavaScript object has each
  key once; \<open>lock_object\<close> says so of the lists that stand for \<^verbatim>\<open>newLock\<close> and for
  the \<^verbatim>\<open>dependencies\<close> of its entries.
\<close>

definition lock_contents ::
  "Lock \<Rightarrow> (string \<times> string \<times> string \<times> string \<times> (string \<times> string) set) set" where
  "lock_contents lk =
     (\<lambda>kv. (fst kv, l_version (snd kv), l_url (snd kv), l_shasum (snd kv),
            set (l_dependencies (snd kv)))) ` set lk"

definition lock_object :: "Lock \<Rightarrow> bool" where
  "lock_object lk =
     (distinct (map fst lk) \<and> list_all (\<lambda>kv. distinct (map fst (l_dependencies (snd kv)))) lk)"

text \<open>
  A serializer for the concrete runs: it writes the keys of an object in their
  enumeration order, as \<^verbatim>\<open>yaml.dump\<close> does.
\<close>

fun flat_dump :: "yaml \<Rightarrow> string" where
  "flat_dump (YString s) = s"
| "flat_dump (YMap kvs) =
     concat (map (\<lambda>kv. fst kv @ '': '' @ flat_dump (snd kv) @ ''; '') kvs)"

text \<open>The same two entries, inserted in the two possible orders.\<close>

definition lock_ab :: Lock where
  "lock_ab =
     [(''a@1.0.0'', \<lparr>l_version = ''1.0.0'', l_url = ''a.tgz'', l_shasum = ''0a'',
                     l_dependencies = [(''c'', ''1.0.0''), (''b'', ''1.0.0'')]\<rparr>),
      (''b@1.0.0'', \<lparr>l_version = ''1.0.0'', l_url = ''b.tgz'', l_shasum = ''0a'',
                     l_dependencies = []\<rparr>)]"

definition lock_ba :: Lock where
  "lock_ba =
     [(''b@1.0.0'', \<lparr>l_version = ''1.0.0'', l_url = ''b.tgz'', l_shasum = ''0a'',
                     l_dependencies = []\<rparr>),
      (''a@1.0.0'', \<lparr>l_version = ''1.0.0'', l_url = ''a.tgz'', l_shasum = ''0a'',
                     l_dependencies = [(''b'', ''1.0.0''), (''c'', ''1.0.0'')]\<rparr>)]"

text \<open>
  A second instance of \<^verbatim>\<open>semver.satisfies\<close>, for registries with pre-release
  versions (those with a hyphen, as 1.0.0-beta). In \<^verbatim>\<open>semver\<close> a version with a
  pre-release tag satisfies a range only if a comparator of the range names a pre-release
  of the same major, minor and patch numbers; the empty range has no such comparator, so
  it accepts the versions without a tag only. An exact range accepts the equal version.
\<close>

definition has_prerelease :: "string \<Rightarrow> bool" where
  "has_prerelease v = (CHR ''-'' \<in> set v)"

definition prerelease_satisfies :: "string \<Rightarrow> string \<Rightarrow> bool" where
  "prerelease_satisfies v r = (if r = [] then \<not> has_prerelease v else v = r)"

definition prerelease_env :: "(string \<times> Manifest) list \<Rightarrow> Lock \<Rightarrow> env" where
  "prerelease_env reg old =
     \<lparr>satisfies = prerelease_satisfies, registry = reg, oldLock = old\<rparr>"

text \<open>
  A package \<open>s\<close> whose only version is a pre-release that depends on \<open>s\<close> itself
  without a range, and a project that requires \<open>s\<close> without a range.
\<close>

definition beta_registry :: "(string \<times> Manifest) list" where
  "beta_registry = [(''s'', [(''1.0.0-beta'', pkg ''s.tgz'' [(''s'', [])])])]"

text \<open>A package \<open>a\<close> without dependencies whose only version is a pre-release.\<close>

definition beta_only_registry :: "(string \<times> Manifest) list" where
  "beta_only_registry = [(''a'', [(''1.0.0-beta'', pkg ''a-beta.tgz'' [])])]"

text \<open>A project with one section, its \<^verbatim>\<open>dependencies\<close>, that requires one name.\<close>

definition one_dependency :: "string \<Rightarrow> string \<Rightarrow> PackageJson" where
  "one_dependency name r =
     \<lparr>pj_dependencies = Some [(name, r)], pj_devDependencies = None\<rparr>"

definition beta_root :: PackageJson where
  "beta_root = \<lparr>pj_dependencies = Some [(''s'', [])], pj_devDependencies = None\<rparr>"

text \<open>
  The traversals of \<open>s\<close> in that registry: every frame holds the pre-release, and
  \<open>s\<close> is bound at top level only once a frame has been pushed.
\<close>

definition beta_traversal :: "traversal \<Rightarrow> bool" where
  "beta_traversal tr =
     (list_all (\<lambda>fr. f_version fr = ''1.0.0-beta'') (fst tr) \<and>
      (case topLevel (snd tr) ''s'' of
         None \<Rightarrow> True
       | Some t \<Rightarrow> t_version t = ''1.0.0-beta'' \<and> fst tr \<noteq> []))"

section \<open>The conflict scan\<close>

lemma findIndex_from_none:
  "\<not> list_ex P xs \<Longrightarrow> findIndex_from P i xs = -1"
  by (induction xs arbitrary: i) auto

lemma findIndex_from_some:
  "list_ex P xs \<Longrightarrow> findIndex_from P i xs = i + int (length (takeWhile (\<lambda>x. \<not> P x) xs))"
  by (induction xs arbitrary: i) auto

lemma checkStackDependencies_first_passing:
  "checkStackDependencies e name version stack =
     (if list_ex (frame_passes e name version) stack
      then int (length (takeWhile (\<lambda>fr. \<not> frame_passes e name version fr) stack))
      else -1)"
  by (simp add: checkStackDependencies_def findIndex_def findIndex_from_none findIndex_from_some)

lemma checkStackDependencies_empty: "checkStackDependencies e name version [] = -1"
  by (simp add: checkStackDependencies_def findIndex_def)

text \<open>
  Claim C1: \<^verbatim>\<open>checkStackDependencies(name, version, stack)\<close> is said to return the lowest
  stack index whose frame's \<^verbatim>\<open>dependencies[name]\<close> exists and is not satisfied by
  \<^verbatim>\<open>version\<close>, and -1 when every frame is silent about the name or satisfied. The
  source does the opposite: its callback returns \<^verbatim>\<open>true\<close> on the frames that are silent
  or satisfied, so \<^verbatim>\<open>findIndex\<close> stops at the first of those. On a stack of one frame
  without dependencies the result is 0 (the claim has -1), and on a stack of one frame
  that requires \<open>c\<close> in 2.0.0 the scan for \<open>c\<close> 1.0.0 gives -1 (the claim has 0).
\<close>

theorem checkStackDependencies_stops_at_compatible_frame:
  "checkStackDependencies (exact_env [] []) ''c'' ''1.0.0''
     [\<lparr>f_name = ''a'', f_version = ''1.0.0'', f_dependencies = []\<rparr>] = 0
   \<and> checkStackDependencies (exact_env [] []) ''c'' ''1.0.0''
     [\<lparr>f_name = ''a'', f_version = ''1.0.0'', f_dependencies = [(''c'', ''2.0.0'')]\<rparr>] = -1"
  by code_simp

section \<open>The parent path of a nested copy\<close>

lemma js_slice_offset:
  "js_slice (i - 2) xs =
     (if 2 \<le> i then drop (nat (i - 2)) xs else drop (length xs - nat (2 - i)) xs)"
  by (auto simp: js_slice_def max_def nat_diff_distrib' intro: arg_cong2 [where f = drop])

text \<open>
  Claim C2: when a top-level binding satisfies the range and the scan returns index
  \<open>i\<close>, the entry appended to \<^verbatim>\<open>unsatisfied\<close> is said to have the names of the frames
  from index \<open>i - 2\<close> to the end of the stack as its parent path, for every stack and
  also for \<open>i < 2\<close>. For \<open>i < 2\<close> the start \<open>i - 2\<close> that the source passes to
  \<^verbatim>\<open>slice\<close> is negative and counts from the end of the array. In the chain
  \<open>a \<rightarrow> b \<rightarrow> c \<rightarrow> d\<close>, where no dependency has a range, with \<open>d\<close> bound
  first, the scan on the stack \<open>a, b, c\<close> returns 0 and the parent path is that of
  the last two frames; the frames from index 0 on are all three.
\<close>

theorem parent_path_of_shallow_conflict_takes_last_frames:
  "checkStackDependencies (exact_env chain_registry []) ''d'' ''1.0.0'' chain_stack = 0
   \<and> (case list_default 5 (exact_env chain_registry []) chain_root initial_state of
        None \<Rightarrow> False
      | Some (r, st) \<Rightarrow>
          r = Inr chain_root_rewritten \<and>
          unsatisfied st =
            [[(''name'', ''d''), (''parent'', ''b/node_modules/c''), (''url'', ''d.tgz'')]])
   \<and> js_join ''/node_modules/'' (drop 0 (map f_name chain_stack))
       = ''a/node_modules/b/node_modules/c''"
  by code_simp

section \<open>Relations that every call preserves\<close>

text \<open>
  A reflexive and transitive relation between the traversal before and after a call holds
  for \<^verbatim>\<open>collectDeps\<close> as soon as it holds across the placement, the lock update and
  the push of one demand.
\<close>

lemma promise_all_rel:
  assumes step: "\<And>x s r s'. x \<in> set xs \<Longrightarrow> f x s = Some (r, s') \<Longrightarrow> R s s'"
    and refl: "\<And>s. R s s"
    and trans: "\<And>a b c. R a b \<Longrightarrow> R b c \<Longrightarrow> R a c"
    and run: "promise_all f xs s = Some (rs, s')"
  shows "R s s'"
  using step run
proof (induction xs arbitrary: s rs s')
  case Nil
  then show ?case by (simp add: refl)
next
  case (Cons x xs)
  from Cons.prems(2) obtain r s1 rs1 where
    fx: "f x s = Some (r, s1)" and rest: "promise_all f xs s1 = Some (rs1, s')"
    by (auto split: option.splits prod.splits)
  have "R s s1" by (rule Cons.prems(1) [of x s r s1]) (simp_all add: fx)
  moreover have "R s1 s'"
  proof (rule Cons.IH [OF _ rest])
    fix y t r t' assume "y \<in> set xs" "f y t = Some (r, t')"
    then show "R t t'" using Cons.prems(1) [of y t r t'] by simp
  qed
  ultimately show ?case by (rule trans)
qed

lemma descend_rel:
  assumes step: "\<And>dep rng s r s'. rec dep rng s = Some (r, s') \<Longrightarrow> R s s'"
    and refl: "\<And>s. R s s"
    and trans: "\<And>a b c. R a b \<Longrightarrow> R b c \<Longrightarrow> R a c"
    and run: "descend rec e name constraint matched deps tr = Some (r, tr')"
  shows "R tr tr'"
proof -
  let ?children = "filter (\<lambda>(dep, rng). \<not> hasCirculation e dep rng (fst tr)) deps"
  from run obtain rs where
    pa: "promise_all (\<lambda>(dep, rng). rec dep rng) ?children tr = Some (rs, tr')"
    by (auto simp: descend_def split: option.splits prod.splits sum.splits)
  show ?thesis
  proof (rule promise_all_rel [OF _ refl trans pa])
    fix x s r s'
    assume "(case x of (dep, rng) \<Rightarrow> rec dep rng) s = Some (r, s')"
    then show "R s s'" using step by (cases x) auto
  qed
qed

lemma collectDeps_rel:
  assumes place: "\<And>name constraint manifest matched m stack st st1.
       acquire e name constraint = Inr manifest \<Longrightarrow>
       pickVersion manifest constraint = Inr (Some matched) \<Longrightarrow>
       map_of manifest matched = Some m \<Longrightarrow>
       placement e name constraint matched (Some m) stack st = Next st1 \<Longrightarrow>
       R (stack, st) (lock_and_push name constraint matched m (stack, st1))"
    and refl: "\<And>s. R s s"
    and trans: "\<And>a b c. R a b \<Longrightarrow> R b c \<Longrightarrow> R a c"
    and run: "collectDeps fuel e name constraint tr = Some (r, tr')"
  shows "R tr tr'"
  using run
proof (induction fuel arbitrary: name constraint tr r tr')
  case 0
  then show ?case by simp
next
  case (Suc fuel)
  show ?case
  proof (cases "acquire e name constraint")
    case (Inl err)
    with Suc.prems show ?thesis by (simp add: refl)
  next
    case (Inr manifest)
    show ?thesis
    proof (cases "pickVersion manifest constraint")
      case (Inl err)
      with Inr Suc.prems show ?thesis by (simp add: refl)
    next
      case picked: (Inr pick)
      show ?thesis
      proof (cases pick)
        case None
        with Inr picked Suc.prems show ?thesis by (simp add: refl)
      next
        case (Some matched)
        note pick = picked [unfolded Some]
        show ?thesis
        proof (cases "matched = []")
          case True
          with Inr pick Suc.prems show ?thesis by (simp add: refl)
        next
          case nonempty: False
          show ?thesis
          proof (cases "placement e name constraint matched (map_of manifest matched)
              (fst tr) (snd tr)")
            case Return
            with Inr pick nonempty Suc.prems show ?thesis by (simp add: refl)
          next
            case (Throw err)
            with Inr pick nonempty Suc.prems show ?thesis by (simp add: refl)
          next
            case (Next st1)
            show ?thesis
            proof (cases "map_of manifest matched")
              case None
              with Next have False
                by (auto simp: placement_def Let_def split: option.splits if_splits)
              then show ?thesis ..
            next
              case m: (Some m)
              with Next have
                "R (fst tr, snd tr) (lock_and_push name constraint matched m (fst tr, st1))"
                by (intro place [OF Inr pick]) simp_all
              then have a: "R tr (lock_and_push name constraint matched m (fst tr, st1))"
                by simp
              have "descend (collectDeps fuel e) e name constraint matched (manifest_deps m)
                      (lock_and_push name constraint matched m (fst tr, st1)) = Some (r, tr')"
                using Inr pick nonempty Next m Suc.prems by simp
              then have "R (lock_and_push name constraint matched m (fst tr, st1)) tr'"
              proof (rule descend_rel [rotated 3])
                fix dep rng s r s' assume "collectDeps fuel e dep rng s = Some (r, s')"
                then show "R s s'" by (rule Suc.IH)
              qed (rule refl, erule (1) trans)
              with a show ?thesis by (rule trans)
            qed
          qed
        qed
      qed
    qed
  qed
qed

section \<open>The top-level bindings\<close>

lemma root_call_rel:
  assumes place: "\<And>name constraint matched m stack st st1.
       placement e name constraint matched (Some m) stack st = Next st1 \<Longrightarrow>
       Q st (snd (lock_and_push name constraint matched m (stack, st1)))"
    and refl: "\<And>s. Q s s"
    and trans: "\<And>a b c. Q a b \<Longrightarrow> Q b c \<Longrightarrow> Q a c"
    and run: "root_call fuel e pair st = Some (r, st')"
  shows "Q st st'"
proof -
  from run obtain tr' where c: "collectDeps fuel e (fst pair) (snd pair) ([], st) = Some (r, tr')"
    and st': "st' = snd tr'"
    by (auto simp: root_call_def split: option.splits prod.splits)
  define R where "R = (\<lambda>(a :: traversal) (b :: traversal). Q (snd a) (snd b))"
  have "R ([], st) tr'"
  proof (rule collectDeps_rel [where R = R and e = e])
    show "collectDeps fuel e (fst pair) (snd pair) ([], st) = Some (r, tr')" by (rule c)
  next
    fix a b c :: traversal
    assume "R a b" "R b c"
    then show "R a c" unfolding R_def by (rule trans)
  qed (simp_all add: R_def place refl)
  then show ?thesis by (simp add: st' R_def)
qed

lemma resolve_section_rel:
  assumes place: "\<And>name constraint matched m stack st st1.
       placement e name constraint matched (Some m) stack st = Next st1 \<Longrightarrow>
       Q st (snd (lock_and_push name constraint matched m (stack, st1)))"
    and refl: "\<And>s. Q s s"
    and trans: "\<And>a b c. Q a b \<Longrightarrow> Q b c \<Longrightarrow> Q a c"
    and run: "resolve_section fuel e sect st = Some (r, st')"
  shows "Q st st'"
proof (cases sect)
  case None
  with run show ?thesis by (simp add: resolve_section_def refl)
next
  case (Some deps)
  with run obtain rs where pa: "promise_all (root_call fuel e) deps st = Some (rs, st')"
    by (auto simp: resolve_section_def split: option.splits prod.splits sum.splits)
  show ?thesis
  proof (rule promise_all_rel [OF _ refl trans pa])
    fix x s r s' assume "root_call fuel e x s = Some (r, s')"
    then show "Q s s'"
      by (rule root_call_rel [where Q = Q and e = e, rotated 3])
        (erule place, rule refl, erule (1) trans)
  qed
qed

lemma list_default_rel:
  assumes place: "\<And>name constraint matched m stack st st1.
       placement e name constraint matched (Some m) stack st = Next st1 \<Longrightarrow>
       Q st (snd (lock_and_push name constraint matched m (stack, st1)))"
    and refl: "\<And>s. Q s s"
    and trans: "\<And>a b c. Q a b \<Longrightarrow> Q b c \<Longrightarrow> Q a c"
    and run: "list_default fuel e rootManifest st = Some (r, st')"
  shows "Q st st'"
proof -
  have sec: "Q s s'" if "resolve_section fuel e sect s = Some (r, s')" for sect s r s'
    using that
    by (rule resolve_section_rel [where Q = Q and e = e, rotated 3])
      (erule place, rule refl, erule (1) trans)
  from run obtain r1 st1 where
    s1: "resolve_section fuel e (pj_dependencies rootManifest) st = Some (r1, st1)"
    by (auto simp: list_default_def split: option.splits prod.splits sum.splits)
  have q1: "Q st st1" using s1 by (rule sec)
  show ?thesis
  proof (cases r1)
    case (Inl err)
    with run s1 have "st' = st1" by (simp add: list_default_def)
    with q1 show ?thesis by simp
  next
    case (Inr deps1)
    with run s1 obtain r2 where
      s2: "resolve_section fuel e (pj_devDependencies rootManifest) st1 = Some (r2, st')"
      by (auto simp: list_default_def split: option.splits prod.splits sum.splits)
    have "Q st1 st'" using s2 by (rule sec)
    with q1 show ?thesis by (rule trans)
  qed
qed

lemma placement_keeps_bindings:
  assumes "placement e name constraint matched mm stack st = Next st1"
    and "topLevel st n = Some b"
  shows "topLevel st1 n = Some b"
  using assms
  by (auto simp: placement_def Let_def split: option.splits if_splits)

lemma placement_bound_name:
  assumes "topLevel st name = Some b"
    and "placement e name constraint matched mm stack st = Next st1"
  shows "topLevel st1 = topLevel st \<and> length (unsatisfied st1) = Suc (length (unsatisfied st))"
  using assms
  by (auto simp: placement_def Let_def split: option.splits if_splits)

lemma placement_unbound_name:
  assumes "topLevel st name = None"
  shows "placement e name constraint matched (Some m) stack st =
     Next (st\<lparr>topLevel := (topLevel st)(name \<mapsto> \<lparr>t_url = tarball (v_dist m), t_version = matched\<rparr>)\<rparr>)"
  using assms by (simp add: placement_def)

lemma collectDeps_keeps_binding:
  assumes run: "collectDeps fuel e name constraint tr = Some (r, tr')"
    and b: "topLevel (snd tr) n = Some b"
  shows "topLevel (snd tr') n = Some b"
proof -
  define R where "R = (\<lambda>(a :: traversal) (c :: traversal).
     topLevel (snd a) n = Some b \<longrightarrow> topLevel (snd c) n = Some b)"
  have "R tr tr'"
  proof (rule collectDeps_rel [where R = R and e = e])
    show "collectDeps fuel e name constraint tr = Some (r, tr')" by (rule run)
  qed (auto simp: R_def lock_and_push_def dest: placement_keeps_bindings)
  with b show ?thesis by (simp add: R_def)
qed

text \<open>
  Claim C4: throughout a resolution run \<^verbatim>\<open>topLevel\<close> holds at most one binding per
  package name (it is an object, here a map from names to bindings), and a binding is never
  overwritten. No call of \<^verbatim>\<open>collectDeps\<close>, with all the calls below it, and no run of
  the resolver changes a binding that exists when it starts; a demand for a bound name
  leaves \<^verbatim>\<open>topLevel\<close> as it is and goes through one of the two branches that append to
  \<^verbatim>\<open>unsatisfied\<close> (unless it returns or fails); the demand that finds the name unbound
  is the one that binds it.
\<close>

theorem topLevel_binding_is_never_overwritten:
  "(collectDeps fuel e name constraint (stack, st) = Some (r, (stack', st')) \<longrightarrow>
      topLevel st n = Some b \<longrightarrow> topLevel st' n = Some b)
   \<and> (list_default fuel e rootManifest st = Some (r', st'') \<longrightarrow>
      topLevel st n = Some b \<longrightarrow> topLevel st'' n = Some b)
   \<and> (topLevel st name = Some b \<longrightarrow>
      placement e name constraint matched mm stack st = Next st1 \<longrightarrow>
      topLevel st1 = topLevel st \<and> length (unsatisfied st1) = Suc (length (unsatisfied st)))
   \<and> (topLevel st name = None \<longrightarrow>
      placement e name constraint matched (Some m) stack st =
        Next (st\<lparr>topLevel := (topLevel st)
               (name \<mapsto> \<lparr>t_url = tarball (v_dist m), t_version = matched\<rparr>)\<rparr>))"
proof -
  have c1: "topLevel st' n = Some b"
    if run: "collectDeps fuel e name constraint (stack, st) = Some (r, (stack', st'))"
      and b: "topLevel st n = Some b"
    using collectDeps_keeps_binding [OF run] b by simp
  have c2: "topLevel st'' n = Some b"
    if run: "list_default fuel e rootManifest st = Some (r', st'')"
      and b: "topLevel st n = Some b"
  proof -
    define Q where "Q = (\<lambda>(a :: state) (c :: state).
       topLevel a n = Some b \<longrightarrow> topLevel c n = Some b)"
    have "Q st st''"
    proof (rule list_default_rel [where Q = Q and e = e])
      show "list_default fuel e rootManifest st = Some (r', st'')" by (rule run)
    qed (auto simp: Q_def lock_and_push_def dest: placement_keeps_bindings)
    with b show ?thesis by (simp add: Q_def)
  qed
  show ?thesis
    using c1 c2 placement_bound_name [of st name b e constraint matched mm stack st1]
      placement_unbound_name [of st name e constraint matched m stack]
    by blast
qed

text \<open>
  The theorem at work, on demands without a range: a demand for \<open>a\<close> below the chain,
  and a run of the resolver, both started where \<open>a\<close> is bound in 1.0.0, leave that
  binding although the version they choose is 2.0.0; the placement of the demand appends
  to \<^verbatim>\<open>unsatisfied\<close>; in the initial state the same demand binds \<open>a\<close>.
\<close>

theorem topLevel_binding_is_never_overwritten_witness:
  "(\<exists>r tr'. collectDeps 3 (exact_env single_registry []) ''a'' [] (chain_stack, a_bound_state)
        = Some (r, tr')
      \<and> topLevel a_bound_state ''a'' = Some \<lparr>t_url = ''a-1.tgz'', t_version = ''1.0.0''\<rparr>
      \<and> topLevel (snd tr') ''a'' = Some \<lparr>t_url = ''a-1.tgz'', t_version = ''1.0.0''\<rparr>)
   \<and> (\<exists>r st'. list_default 3 (exact_env single_registry []) (both_sections [] []) a_bound_state
        = Some (r, st')
      \<and> topLevel st' ''a'' = Some \<lparr>t_url = ''a-1.tgz'', t_version = ''1.0.0''\<rparr>)
   \<and> (\<exists>st1. placement (exact_env single_registry []) ''a'' [] ''2.0.0''
          (Some (pkg ''a-2.tgz'' [])) chain_stack a_bound_state = Next st1
      \<and> topLevel st1 = topLevel a_bound_state
      \<and> length (unsatisfied st1) = Suc (length (unsatisfied a_bound_state)))
   \<and> topLevel initial_state ''a'' = None
   \<and> (\<exists>st1. placement (exact_env single_registry []) ''a'' [] ''2.0.0''
          (Some (pkg ''a-2.tgz'' [])) [] initial_state = Next st1
      \<and> topLevel st1 ''a'' = Some \<lparr>t_url = ''a-2.tgz'', t_version = ''2.0.0''\<rparr>)"
proof -
  let ?E = "exact_env single_registry []"
  let ?B = "\<lparr>t_url = ''a-1.tgz'', t_version = ''1.0.0''\<rparr>"
  let ?m = "pkg ''a-2.tgz'' []"
  note inst = topLevel_binding_is_never_overwritten [where e = ?E and n = "''a''" and b = ?B]
  have b: "topLevel a_bound_state ''a'' = Some ?B" by (simp add: a_bound_state_def)
  have "case collectDeps 3 ?E ''a'' [] (chain_stack, a_bound_state) of
          None \<Rightarrow> False | Some x \<Rightarrow> True"
    by code_simp
  then obtain r stack' st' where
    run: "collectDeps 3 ?E ''a'' [] (chain_stack, a_bound_state) = Some (r, (stack', st'))"
    by (auto split: option.splits)
  have one: "topLevel st' ''a'' = Some ?B"
    using inst [where fuel = 3 and name = "''a''" and constraint = "[]"
        and stack = chain_stack and st = a_bound_state and r = r and stack' = stack' and st' = st']
      run b by blast
  have "case list_default 3 ?E (both_sections [] []) a_bound_state of
          None \<Rightarrow> False | Some x \<Rightarrow> True"
    by code_simp
  then obtain r2 st2 where
    run2: "list_default 3 ?E (both_sections [] []) a_bound_state = Some (r2, st2)"
    by (auto split: option.splits)
  have two: "topLevel st2 ''a'' = Some ?B"
    using inst [where fuel = 3 and rootManifest = "both_sections [] []"
        and st = a_bound_state and r' = r2 and st'' = st2]
      run2 b by blast
  have scan: "checkStackDependencies ?E ''a'' ''2.0.0'' chain_stack = 0"
    by code_simp
  obtain st1 where
    pl: "placement ?E ''a'' [] ''2.0.0'' (Some ?m) chain_stack a_bound_state = Next st1"
    by (simp add: placement_def a_bound_state_def exact_env_def exact_satisfies_def
        scan [unfolded exact_env_def])
  have three: "topLevel st1 = topLevel a_bound_state
      \<and> length (unsatisfied st1) = Suc (length (unsatisfied a_bound_state))"
    using inst [where name = "''a''" and constraint = "[]" and matched = "''2.0.0''"
        and mm = "Some ?m" and stack = chain_stack and st = a_bound_state and ?st1.0 = st1]
      pl b by blast
  have unbound: "topLevel initial_state ''a'' = None" by (simp add: initial_state_def)
  have four: "placement ?E ''a'' [] ''2.0.0'' (Some ?m) [] initial_state =
      Next (initial_state\<lparr>topLevel := (topLevel initial_state)
         (''a'' \<mapsto> \<lparr>t_url = tarball (v_dist ?m), t_version = ''2.0.0''\<rparr>)\<rparr>)"
    using inst [where name = "''a''" and constraint = "[]" and matched = "''2.0.0''"
        and m = ?m and stack = "[]" and st = initial_state]
      unbound by blast
  have five: "\<exists>st1. placement ?E ''a'' [] ''2.0.0'' (Some ?m) [] initial_state = Next st1
      \<and> topLevel st1 ''a'' = Some \<lparr>t_url = ''a-2.tgz'', t_version = ''2.0.0''\<rparr>"
    unfolding four by (simp add: pkg_def)
  have p1: "\<exists>r tr'. collectDeps 3 ?E ''a'' [] (chain_stack, a_bound_state) = Some (r, tr')
      \<and> topLevel a_bound_state ''a'' = Some ?B \<and> topLevel (snd tr') ''a'' = Some ?B"
    using run b one by auto
  have p2: "\<exists>r st'. list_default 3 ?E (both_sections [] []) a_bound_state = Some (r, st')
      \<and> topLevel st' ''a'' = Some ?B"
    using run2 two by auto
  have p3: "\<exists>st1. placement ?E ''a'' [] ''2.0.0'' (Some ?m) chain_stack a_bound_state = Next st1
      \<and> topLevel st1 = topLevel a_bound_state
      \<and> length (unsatisfied st1) = Suc (length (unsatisfied a_bound_state))"
    using pl three by auto
  show ?thesis
    by (intro conjI) (rule p1, rule p2, rule p3, rule unbound, rule five)
qed

section \<open>The entries of \<^verbatim>\<open>unsatisfied\<close>\<close>

lemma placement_appends_entry:
  assumes "placement e name constraint matched (Some m) stack st = Next st1"
  shows "unsatisfied st1 = unsatisfied st \<or>
     (\<exists>parent. unsatisfied st1 = unsatisfied st @
        [[(''name'', name), (''parent'', parent), (''url'', tarball (v_dist m))]])"
  using assms
  by (auto simp: placement_def Let_def split: option.splits if_splits)

lemma placement_entries_shape:
  assumes "placement e name constraint matched (Some m) stack st = Next st1"
    and "list_all has_name_parent_url (unsatisfied st)"
  shows "list_all has_name_parent_url (unsatisfied st1)"
  using placement_appends_entry [OF assms(1)] assms(2)
  by (auto simp: has_name_parent_url_def)

text \<open>
  Claim C7, as the source has it: every entry of \<^verbatim>\<open>unsatisfied\<close> that a run of the
  resolver produces is an object with the three properties \<^verbatim>\<open>name\<close>,
  \<^verbatim>\<open>parent\<close> and \<^verbatim>\<open>url\<close>, in this order; it has no property
  \<^verbatim>\<open>version\<close>. The entry that a placement appends carries the name of the demand
  and the tarball URL of the version chosen for it.
\<close>

theorem unsatisfied_entries_are_name_parent_url:
  "(list_default fuel e rootManifest st = Some (r, st') \<longrightarrow>
      list_all has_name_parent_url (unsatisfied st) \<longrightarrow>
      list_all has_name_parent_url (unsatisfied st'))
   \<and> list_all has_name_parent_url (unsatisfied initial_state)
   \<and> (has_name_parent_url obj \<longrightarrow> map_of obj ''version'' = None)
   \<and> (placement e name constraint matched (Some m) stack st = Next st1 \<longrightarrow>
        unsatisfied st1 = unsatisfied st \<or>
        (\<exists>parent. unsatisfied st1 = unsatisfied st @
           [[(''name'', name), (''parent'', parent), (''url'', tarball (v_dist m))]]))"
proof -
  have c1: "list_all has_name_parent_url (unsatisfied st')"
    if run: "list_default fuel e rootManifest st = Some (r, st')"
      and ok: "list_all has_name_parent_url (unsatisfied st)"
  proof -
    define Q where "Q = (\<lambda>(a :: state) (c :: state).
       list_all has_name_parent_url (unsatisfied a) \<longrightarrow>
       list_all has_name_parent_url (unsatisfied c))"
    have "Q st st'"
    proof (rule list_default_rel [where Q = Q and e = e])
      show "list_default fuel e rootManifest st = Some (r, st')" by (rule run)
    qed (auto simp: Q_def lock_and_push_def dest: placement_entries_shape)
    with ok show ?thesis by (simp add: Q_def)
  qed
  have c3: "map_of obj ''version'' = None" if "has_name_parent_url obj"
  proof -
    from that have "map fst obj = [''name'', ''parent'', ''url'']"
      by (simp add: has_name_parent_url_def)
    then have "set (map fst obj) = set [''name'', ''parent'', ''url'']" by (rule arg_cong)
    then have "''version'' \<notin> set (map fst obj)" by simp
    then show ?thesis by (simp add: map_of_eq_None_iff)
  qed
  have c2: "list_all has_name_parent_url (unsatisfied initial_state)"
    by (simp add: initial_state_def)
  show ?thesis
    using c1 c2 c3 placement_appends_entry [of e name constraint matched m stack st st1]
    by blast
qed

text \<open>
  The theorem on the run over the chain, which starts with no entries and ends with one,
  and on the placement of its first demand, which binds \<open>d\<close> and appends nothing.
\<close>

theorem unsatisfied_entries_are_name_parent_url_witness:
  "(\<exists>r st'. list_default 5 (exact_env chain_registry []) chain_root initial_state = Some (r, st')
      \<and> length (unsatisfied st') = 1
      \<and> list_all has_name_parent_url (unsatisfied st'))
   \<and> has_name_parent_url [(''name'', ''d''), (''parent'', ''b/node_modules/c''), (''url'', ''d.tgz'')]
   \<and> map_of [(''name'', ''d''), (''parent'', ''b/node_modules/c''), (''url'', ''d.tgz'')] ''version''
       = None
   \<and> (\<exists>st1. placement (exact_env chain_registry []) ''d'' [] ''1.0.0'' (Some (pkg ''d.tgz'' []))
          [] initial_state = Next st1
      \<and> (unsatisfied st1 = [] \<or>
         (\<exists>parent. unsatisfied st1 =
            [[(''name'', ''d''), (''parent'', parent), (''url'', ''d.tgz'')]])))"
proof -
  let ?E = "exact_env chain_registry []"
  let ?obj = "[(''name'', ''d''), (''parent'', ''b/node_modules/c''), (''url'', ''d.tgz'')]"
  have "case list_default 5 ?E chain_root initial_state of
          None \<Rightarrow> False | Some (r, st) \<Rightarrow> length (unsatisfied st) = 1"
    by code_simp
  then obtain r st' where
    run: "list_default 5 ?E chain_root initial_state = Some (r, st')"
    and len: "length (unsatisfied st') = 1"
    by (auto split: option.splits)
  have start: "list_all has_name_parent_url (unsatisfied initial_state)"
    by (simp add: initial_state_def)
  have shape: "has_name_parent_url ?obj" by (simp add: has_name_parent_url_def)
  have "case placement ?E ''d'' [] ''1.0.0'' (Some (pkg ''d.tgz'' [])) [] initial_state of
          Next st1 \<Rightarrow> True | Return \<Rightarrow> False | Throw err \<Rightarrow> False"
    by code_simp
  then obtain st1 where
    pl: "placement ?E ''d'' [] ''1.0.0'' (Some (pkg ''d.tgz'' [])) [] initial_state = Next st1"
    by (auto split: completion.splits)
  have none: "unsatisfied initial_state = []" by (simp add: initial_state_def)
  note inst = unsatisfied_entries_are_name_parent_url
    [where fuel = 5 and e = ?E and rootManifest = chain_root and st = initial_state
      and r = r and st' = st' and obj = ?obj and name = "''d''" and constraint = "[]"
      and matched = "''1.0.0''" and m = "pkg ''d.tgz'' []" and stack = "[]" and ?st1.0 = st1]
  have "list_all has_name_parent_url (unsatisfied st')"
    using inst run start by blast
  moreover have "map_of ?obj ''version'' = None"
    using inst shape by blast
  moreover have "unsatisfied st1 = [] \<or>
     (\<exists>parent. unsatisfied st1 =
        [[(''name'', ''d''), (''parent'', parent), (''url'', ''d.tgz'')]])"
    using inst pl by (simp add: initial_state_def pkg_def)
  ultimately show ?thesis using run len shape pl by blast
qed

text \<open>
  Claim C7 as stated asks for four fields \<^verbatim>\<open>name\<close>, \<^verbatim>\<open>parentPath\<close>,
  \<^verbatim>\<open>url\<close> and \<^verbatim>\<open>version\<close>. The entry that the run on the chain produces has
  neither a \<^verbatim>\<open>version\<close> nor a \<^verbatim>\<open>parentPath\<close> property. (No dependency of
  the chain has a range, so every demand of the run passes line 41.)
\<close>

theorem unsatisfied_entry_has_no_version:
  "(case list_default 5 (exact_env chain_registry []) chain_root initial_state of
      None \<Rightarrow> False
    | Some (r, st) \<Rightarrow>
        r = Inr chain_root_rewritten \<and>
        map (map fst) (unsatisfied st) = [[''name'', ''parent'', ''url'']] \<and>
        map (\<lambda>obj. map_of obj ''version'') (unsatisfied st) = [None] \<and>
        map (\<lambda>obj. map_of obj ''parentPath'') (unsatisfied st) = [None])"
  by code_simp

section \<open>The lock update and the descent\<close>

lemma map_of_setProp: "map_of (setProp k v ps) = (map_of ps)(k \<mapsto> v)"
  by (induction ps) (auto simp: fun_eq_iff)

lemma assign_entry_all: "assign_entry target info = info"
  by (cases target, cases info) (simp add: assign_entry_def)

lemma map_of_updateOrCreate: "map_of (updateOrCreate k info lk) = (map_of lk)(k \<mapsto> info)"
  by (auto simp: updateOrCreate_def map_of_setProp assign_entry_all fun_eq_iff map_add_def
      split: option.splits)

lemma lock_and_push_records:
  "map_of (newLock (snd (lock_and_push name constraint matched m tr))) (lock_key name constraint) =
     Some \<lparr>l_version = matched, l_url = tarball (v_dist m), l_shasum = shasum (v_dist m),
           l_dependencies = manifest_deps m\<rparr>"
  by (simp add: lock_and_push_def map_of_updateOrCreate)

lemma placement_return_iff:
  "(placement e name constraint matched mm stack st = Return) =
     (\<exists>t. topLevel st name = Some t \<and> satisfies e (t_version t) constraint \<and>
          checkStackDependencies e name matched stack = -1)"
  by (auto simp: placement_def Let_def split: option.splits)

lemma placement_throw_iff:
  "(placement e name constraint matched (Some m) stack st = Throw err) =
     (err = TypeError \<and>
      (\<exists>t. topLevel st name = Some t \<and> \<not> satisfies e (t_version t) constraint \<and> stack = []))"
  by (auto simp: placement_def Let_def at_last_def split: option.splits)

lemma placement_binds:
  assumes "placement e name constraint matched mm stack st = Next st1"
  shows "topLevel st1 name \<noteq> None"
  using assms by (auto simp: placement_def Let_def split: option.splits if_splits)

lemma placement_keeps_lock:
  assumes "placement e name constraint matched mm stack st = Next st1"
  shows "newLock st1 = newLock st"
  using assms by (auto simp: placement_def Let_def split: option.splits if_splits)

lemma pickVersion_picked:
  assumes "pickVersion manifest constraint = Inr (Some matched)"
  shows "constraint = [] \<and> at_last (map fst manifest) = Some matched"
  using assms by (auto simp: pickVersion_def Let_def split: if_splits)

lemma lock_key_same_name: "lock_key name [] = lock_key name' [] \<Longrightarrow> name = name'"
  by (simp add: lock_key_def)

lemma collectDeps_extends_stack:
  assumes "collectDeps fuel e name constraint tr = Some (r, tr')"
  shows "\<exists>t. fst tr' = fst tr @ t"
proof -
  define R where "R = (\<lambda>(a :: traversal) (b :: traversal). \<exists>t. fst b = fst a @ t)"
  have "R tr tr'"
  proof (rule collectDeps_rel [where R = R and e = e])
    show "collectDeps fuel e name constraint tr = Some (r, tr')" by (rule assms)
  next
    fix a b c :: traversal
    assume "R a b" "R b c"
    then show "R a c" by (auto simp: R_def)
  qed (simp_all add: R_def lock_and_push_def)
  then show ?thesis by (simp add: R_def)
qed

text \<open>
  Every later call that writes under the key of a demand writes the entry the demand
  itself wrote: a version is only ever picked for the empty range, the key of an empty
  range determines the name, and the name determines the manifest and the pick.
\<close>

lemma collectDeps_keeps_lock_entry:
  assumes acq: "acquire e name [] = Inr manifest"
    and pick: "pickVersion manifest [] = Inr (Some matched)"
    and m: "map_of manifest matched = Some m"
    and run: "collectDeps fuel e n c tr = Some (r, tr')"
    and has: "map_of (newLock (snd tr)) (lock_key name []) =
       Some \<lparr>l_version = matched, l_url = tarball (v_dist m), l_shasum = shasum (v_dist m),
             l_dependencies = manifest_deps m\<rparr>"
  shows "map_of (newLock (snd tr')) (lock_key name []) =
       Some \<lparr>l_version = matched, l_url = tarball (v_dist m), l_shasum = shasum (v_dist m),
             l_dependencies = manifest_deps m\<rparr>"
proof -
  let ?entry = "\<lparr>l_version = matched, l_url = tarball (v_dist m), l_shasum = shasum (v_dist m),
             l_dependencies = manifest_deps m\<rparr>"
  define R where "R = (\<lambda>(a :: traversal) (b :: traversal).
     map_of (newLock (snd a)) (lock_key name []) = Some ?entry \<longrightarrow>
     map_of (newLock (snd b)) (lock_key name []) = Some ?entry)"
  have "R tr tr'"
  proof (rule collectDeps_rel [where R = R and e = e])
    show "collectDeps fuel e n c tr = Some (r, tr')" by (rule run)
  next
    fix name' constraint' manifest' matched' m' stack st st1
    assume acq': "acquire e name' constraint' = Inr manifest'"
      and pick': "pickVersion manifest' constraint' = Inr (Some matched')"
      and m': "map_of manifest' matched' = Some m'"
      and pl: "placement e name' constraint' matched' (Some m') stack st = Next st1"
    from pickVersion_picked [OF pick'] have c': "constraint' = []"
      and last': "at_last (map fst manifest') = Some matched'" by simp_all
    show "R (stack, st) (lock_and_push name' constraint' matched' m' (stack, st1))"
    proof (cases "lock_key name' [] = lock_key name []")
      case True
      then have "name' = name" by (rule lock_key_same_name)
      with acq acq' c' have "manifest' = manifest" by simp
      with pickVersion_picked [OF pick] last' have "matched' = matched" by simp
      with m m' \<open>manifest' = manifest\<close> have "m' = m" by simp
      show ?thesis
        unfolding R_def c' \<open>name' = name\<close> \<open>matched' = matched\<close> \<open>m' = m\<close>
        by (simp add: lock_and_push_records)
    next
      case False
      then show ?thesis
        unfolding R_def c'
        by (simp add: lock_and_push_def map_of_updateOrCreate placement_keeps_lock [OF pl])
    qed
  qed (auto simp: R_def)
  with has show ?thesis by (simp add: R_def)
qed

lemma collectDeps_value_binds:
  assumes "collectDeps fuel e name constraint tr = Some (Inr v, tr')"
  shows "topLevel (snd tr') name \<noteq> None"
proof (cases fuel)
  case 0
  with assms show ?thesis by simp
next
  case (Suc k)
  from assms Suc obtain manifest matched where
    acq: "acquire e name constraint = Inr manifest"
    and pick: "pickVersion manifest constraint = Inr (Some matched)"
    and nonempty: "matched \<noteq> []"
    by (auto split: sum.splits option.splits if_splits)
  show ?thesis
  proof (cases "placement e name constraint matched (map_of manifest matched) (fst tr) (snd tr)")
    case Return
    then have "topLevel (snd tr) name \<noteq> None" by (auto simp: placement_return_iff)
    moreover have "tr' = tr" using assms Suc acq pick nonempty Return by simp
    ultimately show ?thesis by simp
  next
    case (Throw err)
    with assms Suc acq pick nonempty show ?thesis by simp
  next
    case (Next st1)
    then obtain b where b: "topLevel st1 name = Some b" using placement_binds by fastforce
    from assms Suc acq pick nonempty Next obtain m where
      m: "map_of manifest matched = Some m"
      and d: "descend (collectDeps k e) e name constraint matched (manifest_deps m)
          (lock_and_push name constraint matched m (fst tr, st1)) = Some (Inr v, tr')"
      by (auto split: option.splits)
    have "topLevel (snd (lock_and_push name constraint matched m (fst tr, st1))) name = Some b"
      using b by (simp add: lock_and_push_def)
    moreover have "topLevel (snd tr') n = Some c"
      if "topLevel (snd (lock_and_push name constraint matched m (fst tr, st1))) n = Some c"
      for n c
    proof -
      define R where "R = (\<lambda>(a :: traversal) (b :: traversal).
        topLevel (snd a) n = Some c \<longrightarrow> topLevel (snd b) n = Some c)"
      have "R (lock_and_push name constraint matched m (fst tr, st1)) tr'"
        using d
      proof (rule descend_rel [rotated 3])
        fix dep rng s r s' assume "collectDeps k e dep rng s = Some (r, s')"
        then show "R s s'" unfolding R_def by (auto dest: collectDeps_keeps_binding)
      qed (auto simp: R_def)
      with that show ?thesis by (simp add: R_def)
    qed
    ultimately show ?thesis by auto
  qed
qed


lemma promise_all_establishes:
  assumes run: "promise_all f xs s = Some (Inr vs, s')"
    and est: "\<And>x s v s'. f x s = Some (Inr v, s') \<Longrightarrow> P x s'"
    and keep: "\<And>x y s r s'. f y s = Some (r, s') \<Longrightarrow> P x s \<Longrightarrow> P x s'"
  shows "list_all (\<lambda>x. P x s') xs"
  using run
proof (induction xs arbitrary: s vs)
  case Nil
  show ?case by simp
next
  case (Cons x xs)
  from Cons.prems obtain r s1 rs where
    fx: "f x s = Some (r, s1)" and rest: "promise_all f xs s1 = Some (rs, s')"
    and comb: "settle r rs = Inr vs"
    by (auto split: option.splits prod.splits)
  from comb obtain v ws where r: "r = Inr v" and rs: "rs = Inr ws"
    by (auto simp: settle_def split: sum.splits)
  have "P x s1" using fx r est by simp
  moreover have "P x s1 \<longrightarrow> P x s'"
  proof (rule promise_all_rel [where R = "\<lambda>a b. P x a \<longrightarrow> P x b", OF _ _ _ rest])
    fix y t r' t' assume "f y t = Some (r', t')"
    then show "P x t \<longrightarrow> P x t'" using keep by blast
  qed auto
  ultimately have "P x s'" by simp
  moreover have "list_all (\<lambda>x. P x s') xs" using Cons.IH rest rs by simp
  ultimately show ?case by simp
qed

lemma descend_binds_dependencies:
  assumes "descend (collectDeps k e) e name constraint matched deps tr = Some (Inr v, tr')"
  shows "list_all (\<lambda>dep. hasCirculation e (fst dep) (snd dep) (fst tr) \<or>
            topLevel (snd tr') (fst dep) \<noteq> None) deps"
proof -
  let ?children = "filter (\<lambda>(dep, rng). \<not> hasCirculation e dep rng (fst tr)) deps"
  from assms obtain vs where
    pa: "promise_all (\<lambda>(dep, rng). collectDeps k e dep rng) ?children tr = Some (Inr vs, tr')"
    by (auto simp: descend_def split: option.splits prod.splits sum.splits)
  have "list_all (\<lambda>x. topLevel (snd tr') (fst x) \<noteq> None) ?children"
  proof (rule promise_all_establishes [OF pa])
    fix x :: "string \<times> string" and s :: traversal and v s'
    assume "(case x of (dep, rng) \<Rightarrow> collectDeps k e dep rng) s = Some (Inr v, s')"
    then have "collectDeps k e (fst x) (snd x) s = Some (Inr v, s')"
      by (simp add: case_prod_beta)
    then show "topLevel (snd s') (fst x) \<noteq> None" by (rule collectDeps_value_binds)
  next
    fix x y :: "string \<times> string" and s :: traversal and r s'
    assume "(case y of (dep, rng) \<Rightarrow> collectDeps k e dep rng) s = Some (r, s')"
      and "topLevel (snd s) (fst x) \<noteq> None"
    then show "topLevel (snd s') (fst x) \<noteq> None"
      by (auto simp: case_prod_beta dest: collectDeps_keeps_binding)
  qed
  then show ?thesis by (fastforce simp: list_all_iff)
qed

text \<open>
  Claim C3, as the source has it: a call \<^verbatim>\<open>collectDeps(name, range, stack)\<close> that has
  chosen a version \<open>matched\<close> and whose placement goes on (the name has no top-level
  binding; or the binding satisfies the range and the scan returns an index other than -1;
  or the binding does not satisfy the range and the stack is not empty) pushes its frame,
  records the entry of \<open>matched\<close> (version, tarball URL, shasum, dependencies) in the
  new lock under the key of the requested range, where the entry still is when the call
  returns, and descends into the dependencies of \<open>matched\<close>: when the call returns a
  value, every dependency that no frame of the stack covered is bound at top level. When
  the binding satisfies the range and the scan returns -1, the call returns at line 52
  with the stack and the state as they were.
\<close>

theorem collectDeps_records_lock_entry_unless_covered:
  assumes "acquire e name constraint = Inr manifest"
    and "pickVersion manifest constraint = Inr (Some matched)"
    and "matched \<noteq> []"
    and "map_of manifest matched = Some m"
  shows "(case placement e name constraint matched (Some m) stack st of
            Next st1 \<Rightarrow>
              collectDeps (Suc fuel) e name constraint (stack, st) =
                descend (collectDeps fuel e) e name constraint matched (manifest_deps m)
                  (lock_and_push name constraint matched m (stack, st1))
              \<and> (\<forall>r tr'. collectDeps (Suc fuel) e name constraint (stack, st) = Some (r, tr') \<longrightarrow>
                    (\<exists>t. fst tr' =
                       stack @ \<lparr>f_name = name, f_version = matched,
                                 f_dependencies = manifest_deps m\<rparr> # t)
                    \<and> map_of (newLock (snd tr')) (lock_key name constraint) =
                        Some \<lparr>l_version = matched, l_url = tarball (v_dist m),
                              l_shasum = shasum (v_dist m),
                              l_dependencies = manifest_deps m\<rparr>)
              \<and> (\<forall>v tr'. collectDeps (Suc fuel) e name constraint (stack, st) = Some (Inr v, tr') \<longrightarrow>
                    list_all (\<lambda>dep.
                        hasCirculation e (fst dep) (snd dep)
                          (stack @ [\<lparr>f_name = name, f_version = matched,
                                     f_dependencies = manifest_deps m\<rparr>])
                        \<or> topLevel (snd tr') (fst dep) \<noteq> None)
                      (manifest_deps m))
          | Return \<Rightarrow>
              collectDeps (Suc fuel) e name constraint (stack, st) = Some (Inr None, (stack, st))
          | Throw err \<Rightarrow>
              collectDeps (Suc fuel) e name constraint (stack, st) = Some (Inl err, (stack, st)))
   \<and> (placement e name constraint matched (Some m) stack st = Return) =
       (\<exists>t. topLevel st name = Some t \<and> satisfies e (t_version t) constraint \<and>
            checkStackDependencies e name matched stack = -1)
   \<and> (\<forall>err. (placement e name constraint matched (Some m) stack st = Throw err) =
         (err = TypeError \<and>
          (\<exists>t. topLevel st name = Some t \<and> \<not> satisfies e (t_version t) constraint \<and>
               stack = [])))"
proof -
  let ?frame = "\<lparr>f_name = name, f_version = matched, f_dependencies = manifest_deps m\<rparr>"
  let ?entry = "\<lparr>l_version = matched, l_url = tarball (v_dist m),
      l_shasum = shasum (v_dist m), l_dependencies = manifest_deps m\<rparr>"
  from pickVersion_picked [OF assms(2)] have c: "constraint = []" by simp
  have next_case: "collectDeps (Suc fuel) e name constraint (stack, st) =
        descend (collectDeps fuel e) e name constraint matched (manifest_deps m)
          (lock_and_push name constraint matched m (stack, st1))
      \<and> (\<forall>r tr'. collectDeps (Suc fuel) e name constraint (stack, st) = Some (r, tr') \<longrightarrow>
            (\<exists>t. fst tr' = stack @ ?frame # t)
            \<and> map_of (newLock (snd tr')) (lock_key name constraint) = Some ?entry)
      \<and> (\<forall>v tr'. collectDeps (Suc fuel) e name constraint (stack, st) = Some (Inr v, tr') \<longrightarrow>
            list_all (\<lambda>dep. hasCirculation e (fst dep) (snd dep) (stack @ [?frame])
                \<or> topLevel (snd tr') (fst dep) \<noteq> None) (manifest_deps m))"
    if pl: "placement e name constraint matched (Some m) stack st = Next st1" for st1
  proof -
    let ?tr1 = "lock_and_push name constraint matched m (stack, st1)"
    have eq: "collectDeps (Suc fuel) e name constraint (stack, st) =
        descend (collectDeps fuel e) e name constraint matched (manifest_deps m) ?tr1"
      using assms pl by simp
    have stack1: "fst ?tr1 = stack @ [?frame]" by (simp add: lock_and_push_def)
    have B: "(\<exists>t. fst tr' = stack @ ?frame # t)
        \<and> map_of (newLock (snd tr')) (lock_key name constraint) = Some ?entry"
      if run: "collectDeps (Suc fuel) e name constraint (stack, st) = Some (r, tr')" for r tr'
    proof -
      from run eq have d: "descend (collectDeps fuel e) e name constraint matched
          (manifest_deps m) ?tr1 = Some (r, tr')" by simp
      define R where "R = (\<lambda>(a :: traversal) (b :: traversal).
         (\<exists>t. fst b = fst a @ t) \<and>
         (map_of (newLock (snd a)) (lock_key name []) = Some ?entry \<longrightarrow>
          map_of (newLock (snd b)) (lock_key name []) = Some ?entry))"
      have "R ?tr1 tr'"
        using d
      proof (rule descend_rel [rotated 3])
        fix dep rng s r s' assume sub: "collectDeps fuel e dep rng s = Some (r, s')"
        show "R s s'"
          unfolding R_def
          using collectDeps_extends_stack [OF sub]
            collectDeps_keeps_lock_entry [OF assms(1,2) [unfolded c] assms(4) sub]
          by blast
      qed (auto simp: R_def)
      moreover have "map_of (newLock (snd ?tr1)) (lock_key name []) = Some ?entry"
        using lock_and_push_records [of name constraint matched m "(stack, st1)"] c by simp
      ultimately show ?thesis using stack1 c by (auto simp: R_def)
    qed
    have C: "list_all (\<lambda>dep. hasCirculation e (fst dep) (snd dep) (stack @ [?frame])
                \<or> topLevel (snd tr') (fst dep) \<noteq> None) (manifest_deps m)"
      if run: "collectDeps (Suc fuel) e name constraint (stack, st) = Some (Inr v, tr')" for v tr'
      using descend_binds_dependencies [of fuel e name constraint matched "manifest_deps m" ?tr1 v tr']
        run eq stack1 by simp
    show ?thesis using eq B C by blast
  qed
  have main: "case placement e name constraint matched (Some m) stack st of
            Next st1 \<Rightarrow>
              collectDeps (Suc fuel) e name constraint (stack, st) =
                descend (collectDeps fuel e) e name constraint matched (manifest_deps m)
                  (lock_and_push name constraint matched m (stack, st1))
              \<and> (\<forall>r tr'. collectDeps (Suc fuel) e name constraint (stack, st) = Some (r, tr') \<longrightarrow>
                    (\<exists>t. fst tr' = stack @ ?frame # t)
                    \<and> map_of (newLock (snd tr')) (lock_key name constraint) = Some ?entry)
              \<and> (\<forall>v tr'. collectDeps (Suc fuel) e name constraint (stack, st) = Some (Inr v, tr') \<longrightarrow>
                    list_all (\<lambda>dep. hasCirculation e (fst dep) (snd dep) (stack @ [?frame])
                        \<or> topLevel (snd tr') (fst dep) \<noteq> None) (manifest_deps m))
          | Return \<Rightarrow>
              collectDeps (Suc fuel) e name constraint (stack, st) = Some (Inr None, (stack, st))
          | Throw err \<Rightarrow>
              collectDeps (Suc fuel) e name constraint (stack, st) = Some (Inl err, (stack, st))"
  proof (cases "placement e name constraint matched (Some m) stack st")
    case Return
    with assms show ?thesis by simp
  next
    case (Throw err)
    with assms show ?thesis by simp
  next
    case (Next st1)
    from next_case [OF Next] show ?thesis unfolding Next completion.case .
  qed
  show ?thesis
    by (intro conjI allI) (rule main, rule placement_return_iff, rule placement_throw_iff)
qed

text \<open>
  The theorem on the first demand of the chain, \<open>a\<close> without a range from the initial
  state: the call returns with the frame of \<open>a\<close> on the stack, the entry of \<open>a\<close>
  in the new lock and the dependency \<open>b\<close> bound.
\<close>

theorem collectDeps_records_lock_entry_unless_covered_witness:
  "acquire (exact_env chain_registry []) ''a'' [] = Inr [(''1.0.0'', pkg ''a.tgz'' [(''b'', [])])]
   \<and> pickVersion [(''1.0.0'', pkg ''a.tgz'' [(''b'', [])])] [] = Inr (Some ''1.0.0'')
   \<and> map_of [(''1.0.0'', pkg ''a.tgz'' [(''b'', [])])] ''1.0.0''
        = Some (pkg ''a.tgz'' [(''b'', [])])
   \<and> (\<exists>st1. placement (exact_env chain_registry []) ''a'' [] ''1.0.0''
           (Some (pkg ''a.tgz'' [(''b'', [])])) [] initial_state = Next st1)
   \<and> (\<exists>v tr'. collectDeps 5 (exact_env chain_registry []) ''a'' [] ([], initial_state)
           = Some (Inr v, tr')
        \<and> (\<exists>t. fst tr' =
              \<lparr>f_name = ''a'', f_version = ''1.0.0'', f_dependencies = [(''b'', [])]\<rparr> # t)
        \<and> map_of (newLock (snd tr')) ''a@'' =
            Some \<lparr>l_version = ''1.0.0'', l_url = ''a.tgz'', l_shasum = ''0a'',
                  l_dependencies = [(''b'', [])]\<rparr>
        \<and> topLevel (snd tr') ''b'' \<noteq> None)"
proof -
  let ?E = "exact_env chain_registry []"
  let ?m = "pkg ''a.tgz'' [(''b'', [])]"
  let ?man = "[(''1.0.0'', ?m)]"
  let ?frame = "\<lparr>f_name = ''a'', f_version = ''1.0.0'', f_dependencies = [(''b'', [])]\<rparr>"
  have h1: "acquire ?E ''a'' [] = Inr ?man"
    by (simp add: acquire_def getItem_def exact_env_def chain_registry_def lock_key_def)
  have h2: "pickVersion ?man [] = Inr (Some ''1.0.0'')"
    by (simp add: pickVersion_def at_last_def)
  have h3: "''1.0.0'' \<noteq> []" by simp
  have h4: "map_of ?man ''1.0.0'' = Some ?m" by simp
  obtain st1 where pl: "placement ?E ''a'' [] ''1.0.0'' (Some ?m) [] initial_state = Next st1"
    by (simp add: placement_def initial_state_def)
  have deps: "manifest_deps ?m = [(''b'', [])]" by (simp add: manifest_deps_def pkg_def)
  have url: "tarball (v_dist ?m) = ''a.tgz''" and sha: "shasum (v_dist ?m) = ''0a''"
    by (simp_all add: pkg_def)
  have key: "lock_key ''a'' [] = ''a@''" by (simp add: lock_key_def)
  have five: "Suc 4 = 5" by simp
  have "case collectDeps 5 ?E ''a'' [] ([], initial_state) of
          Some (Inr v, tr) \<Rightarrow> True | _ \<Rightarrow> False"
    by code_simp
  then obtain v tr' where run: "collectDeps 5 ?E ''a'' [] ([], initial_state) = Some (Inr v, tr')"
    by (auto split: option.splits sum.splits)
  note facts = collectDeps_records_lock_entry_unless_covered
      [OF h1 h2 h3 h4, where stack = "[]" and st = initial_state and fuel = 4,
        THEN conjunct1, unfolded pl completion.case deps url sha key five]
  from facts run have one: "(\<exists>t. fst tr' = [] @ ?frame # t)
        \<and> map_of (newLock (snd tr')) ''a@'' =
            Some \<lparr>l_version = ''1.0.0'', l_url = ''a.tgz'', l_shasum = ''0a'',
                  l_dependencies = [(''b'', [])]\<rparr>"
    by blast
  from facts run have "list_all (\<lambda>dep. hasCirculation ?E (fst dep) (snd dep) ([] @ [?frame])
            \<or> topLevel (snd tr') (fst dep) \<noteq> None) [(''b'', [])]"
    by blast
  then have two: "topLevel (snd tr') ''b'' \<noteq> None"
    by (simp add: hasCirculation_def)
  have "\<exists>v tr'. collectDeps 5 ?E ''a'' [] ([], initial_state) = Some (Inr v, tr')
        \<and> (\<exists>t. fst tr' = ?frame # t)
        \<and> map_of (newLock (snd tr')) ''a@'' =
            Some \<lparr>l_version = ''1.0.0'', l_url = ''a.tgz'', l_shasum = ''0a'',
                  l_dependencies = [(''b'', [])]\<rparr>
        \<and> topLevel (snd tr') ''b'' \<noteq> None"
    using run one two by auto
  with h1 h2 h4 pl show ?thesis by blast
qed

text \<open>
  Claim C3 as stated also covers the demand that an existing compatible top-level binding
  satisfies with no conflict found. After the project's demand for \<open>a\<close> has been
  resolved, a second demand for \<open>a\<close> chooses 1.0.0, whose manifest lists the dependency
  \<open>b\<close>, finds \<open>a\<close> bound, and returns with its stack still empty: no frame is
  pushed and \<open>b\<close> is not demanded again. This is the call that the resolver makes for
  \<^verbatim>\<open>devDependencies\<close> when \<open>a\<close> is listed in both sections.
\<close>

theorem covered_demand_is_not_descended_into:
  "(case list_default 5 (exact_env chain_registry []) (one_dependency ''a'' []) initial_state of
      None \<Rightarrow> False
    | Some (r1, st1) \<Rightarrow>
        r1 = Inr (one_dependency ''a'' ''^1.0.0'') \<and>
        (case collectDeps 5 (exact_env chain_registry []) ''a'' [] ([], st1) of
           None \<Rightarrow> False
         | Some (r2, (stack2, st2)) \<Rightarrow>
             r2 = Inr None \<and> stack2 = [] \<and>
             unsatisfied st2 = unsatisfied st1 \<and> newLock st2 = newLock st1))
   \<and> (case acquire (exact_env chain_registry []) ''a'' [] of
        Inl err \<Rightarrow> False
      | Inr manifest \<Rightarrow>
          pickVersion manifest [] = Inr (Some ''1.0.0'') \<and>
          map (\<lambda>ver. manifest_deps (snd ver)) manifest = [[(''b'', [])]])
   \<and> (case list_default 5 (exact_env chain_registry []) (both_sections [] []) initial_state of
        None \<Rightarrow> False
      | Some (r, st) \<Rightarrow>
          r = Inr \<lparr>pj_dependencies = Some [(''a'', ''^1.0.0'')],
                   pj_devDependencies = Some [(''a'', [])]\<rparr> \<and>
          unsatisfied st = [])"
  by code_simp

section \<open>Replaying the old lock\<close>

text \<open>
  For a request whose key is in the old lock, \<^verbatim>\<open>getItem\<close> returns a manifest whose only
  key is the locked version, mapped to the dependencies, tarball URL and shasum of the
  entry; the manifest of the request is that one whatever the registry holds. For a request
  whose key is absent \<^verbatim>\<open>getItem\<close> returns \<^verbatim>\<open>null\<close>.
\<close>

lemma getItem_hit:
  assumes "map_of old (lock_key name constraint) = Some item"
  shows "getItem old name constraint = Some (locked_manifest item)"
    and "map fst (locked_manifest item) = [l_version item]"
    and "map_of (locked_manifest item) (l_version item) =
          Some \<lparr>dependencies = Some (l_dependencies item),
                v_dist = \<lparr>shasum = l_shasum item, tarball = l_url item\<rparr>\<rparr>"
  using assms by (simp_all add: getItem_def locked_manifest_def)

lemma getItem_miss:
  "map_of old (lock_key name constraint) = None \<Longrightarrow> getItem old name constraint = None"
  by (simp add: getItem_def)

lemma acquire_ignores_registry:
  assumes "map_of (oldLock e) (lock_key name constraint) = Some item"
  shows "acquire (e\<lparr>registry := reg\<rparr>) name constraint = Inr (locked_manifest item)"
  using assms by (simp add: acquire_def getItem_def locked_manifest_def)

text \<open>
  Line 41 picks the locked version for the empty range. For a non-empty range line 40
  calls \<^verbatim>\<open>semver.maxSatisying\<close>, which is \<^verbatim>\<open>undefined\<close>: the call of
  \<^verbatim>\<open>collectDeps\<close> fails there once the manifest is acquired, with the traversal as it
  was.
\<close>

lemma locked_version_is_picked_without_range:
  "pickVersion (locked_manifest item) [] = Inr (Some (l_version item))"
  by (simp add: pickVersion_def locked_manifest_def at_last_def)

lemma nonempty_range_throws:
  assumes "constraint \<noteq> []"
  shows "collectDeps (Suc fuel) e name constraint tr =
     (case acquire e name constraint of
        Inl err \<Rightarrow> Some (Inl err, tr)
      | Inr manifest \<Rightarrow> Some (Inl TypeError, tr))"
  using assms by (simp add: pickVersion_def split: sum.splits)

text \<open>
  Claim C6: for every request present in the old lock, \<^verbatim>\<open>getItem\<close> is said to return
  the manifest of the single locked version, the registry not to be contacted, and
  resolution to pick the locked version even when the registry has newer satisfying
  versions. With the old lock binding \<^verbatim>\<open>a@^1.0.0\<close> to 1.2.3, a registry that also has
  1.4.0 and a project that requires \<open>a\<close> in \<^verbatim>\<open>^1.0.0\<close>, \<^verbatim>\<open>getItem\<close> returns the
  manifest of 1.2.3 alone and the registry is not read, but no version is picked: the
  choice of line 40 fails with a \<^verbatim>\<open>TypeError\<close>, and the resolution ends with \<open>a\<close>
  not bound at top level and an empty new lock. The run does not reach a call of
  \<^verbatim>\<open>semver.satisfies\<close>, so this holds whatever that function answers.
\<close>

theorem locked_demand_with_a_range_is_not_replayed:
  "(case list_default 5 \<lparr>satisfies = sat, registry = caret_registry, oldLock = caret_lock\<rparr>
          caret_root initial_state of
      None \<Rightarrow> False
    | Some (r, st) \<Rightarrow>
        r = Inl TypeError \<and> newLock st = [] \<and> unsatisfied st = [] \<and>
        map_option t_version (topLevel st ''a'') = None)
   \<and> getItem caret_lock ''a'' ''^1.0.0'' = Some [(''1.2.3'', pkg ''a-1.2.3.tgz'' [])]
   \<and> acquire \<lparr>satisfies = sat, registry = caret_registry, oldLock = caret_lock\<rparr> ''a'' ''^1.0.0''
       = Inr [(''1.2.3'', pkg ''a-1.2.3.tgz'' [])]
   \<and> pickVersion [(''1.2.3'', pkg ''a-1.2.3.tgz'' [])] ''^1.0.0'' = Inl TypeError"
  by code_simp

text \<open>
  A locked demand without a range is replayed: with the unconstrained demand for \<open>a\<close>
  pinned to 1.0.0 and a registry that has 1.0.0 and 2.0.0, the version bound is 1.0.0.
\<close>

lemma unconstrained_locked_demand_is_replayed:
  "(case list_default 5 (exact_env single_registry pinned_lock) (one_dependency ''a'' [])
          initial_state of
      None \<Rightarrow> False
    | Some (r, st) \<Rightarrow>
        r = Inr (one_dependency ''a'' ''^1.0.0'') \<and>
        map_option t_version (topLevel st ''a'') = Some ''1.0.0'')
   \<and> map fst (the (map_of single_registry ''a'')) = [''1.0.0'', ''2.0.0'']"
  by code_simp

section \<open>The value returned to the project manifest\<close>

text \<open>
  A call that returns a value was made with the empty constraint, and returns
  \<^verbatim>\<open>undefined\<close> or its name with a caret range.
\<close>

lemma descend_result:
  assumes "descend rec e name constraint matched deps tr = Some (Inr res, tr')"
  shows "res = (if constraint = [] then Some (name, ''^'' @ matched) else None)"
  using assms
  by (auto simp: descend_def split: option.splits prod.splits sum.splits if_splits)

lemma collectDeps_result:
  assumes "collectDeps fuel e name constraint tr = Some (Inr res, tr')"
  shows "constraint = [] \<and> (res = None \<or> (\<exists>matched. res = Some (name, ''^'' @ matched)))"
proof (cases fuel)
  case 0
  with assms show ?thesis by simp
next
  case (Suc k)
  with assms show ?thesis
    by (auto simp: pickVersion_def Let_def
        split: sum.splits option.splits if_splits completion.splits dest!: descend_result)
qed

text \<open>
  Claim C8: a call from the project manifest with the empty range is said to return the
  name with the range \<^verbatim>\<open>^matched\<close>, with which the manifest entry is rewritten. When the
  name is already bound at top level the call returns at line 52 before it reaches line
  93: with \<open>a\<close> listed without a range in both sections, the entry of
  \<^verbatim>\<open>dependencies\<close> becomes \<^verbatim>\<open>^2.0.0\<close> and the entry of \<^verbatim>\<open>devDependencies\<close>
  stays empty.
\<close>

theorem empty_range_root_demand_is_not_rewritten:
  "(case list_default 5 (exact_env single_registry []) (both_sections [] []) initial_state of
      None \<Rightarrow> False
    | Some (r, st) \<Rightarrow>
        r = Inr \<lparr>pj_dependencies = Some [(''a'', ''^2.0.0'')],
                 pj_devDependencies = Some [(''a'', [])]\<rparr>)
   \<and> (case collectDeps 5 (exact_env single_registry []) ''a'' [] ([], a_bound_state) of
      None \<Rightarrow> False
    | Some (r, tr) \<Rightarrow> r = Inr None)"
  by code_simp

section \<open>The read of the last stack frame\<close>

text \<open>
  Claim C10: whenever the branch is taken in which the top-level binding does not satisfy
  the constraint, the stack is said to be non-empty, also for a demand that comes from the
  project manifest. With \<open>a\<close> published only as the pre-release 1.0.0-beta and listed
  without a range in both sections, the first demand binds 1.0.0-beta at top level; the
  second finds that binding, which the empty range does not accept, and reaches line 65
  with the empty stack of a root call: \<^verbatim>\<open>stack.at(-1)\<close> is \<^verbatim>\<open>undefined\<close> and the read
  of its name fails.
\<close>

theorem incompatible_root_demand_reads_empty_stack:
  "(case list_default 5 (prerelease_env beta_only_registry []) (both_sections [] [])
          initial_state of
      None \<Rightarrow> False
    | Some (r, st) \<Rightarrow>
        r = Inl TypeError \<and> map fst (newLock st) = [''a@''] \<and>
        map_option t_version (topLevel st ''a'') = Some ''1.0.0-beta'')
   \<and> (case list_default 5 (prerelease_env beta_only_registry []) (one_dependency ''a'' [])
            initial_state of
        None \<Rightarrow> False
      | Some (r1, st1) \<Rightarrow>
          r1 = Inr (one_dependency ''a'' ''^1.0.0-beta'') \<and>
          (case placement (prerelease_env beta_only_registry []) ''a'' [] ''1.0.0-beta''
                  (Some (pkg ''a-beta.tgz'' [])) [] st1 of
             Throw err \<Rightarrow> err = TypeError
           | Return \<Rightarrow> False
           | Next st2 \<Rightarrow> False))
   \<and> at_last ([] :: DependencyStack) = None"
  by code_simp

section \<open>The written lock\<close>

lemma sort_key_fst_unique:
  assumes "distinct (map fst xs)" and "distinct (map fst ys)" and "set xs = set ys"
  shows "sort_key fst xs = sort_key fst ys"
proof (rule sort_key_inj_key_eq)
  have "distinct xs" "distinct ys" using assms(1,2) by (auto simp: distinct_map)
  then have "mset xs = mset ys" using assms(3) by (simp add: set_eq_iff_mset_eq_distinct)
  then show "mset xs = mset (sort_key fst ys)" by simp
  show "inj_on fst (set xs)" using assms(1) by (simp add: distinct_map)
  show "sorted (map fst (sort_key fst ys))" by (rule sorted_sort_key)
qed

lemma keys_sorted_sortKeys: "keys_sorted (sortKeys y)"
proof (induction y rule: sortKeys.induct)
  case (1 s)
  show ?case by simp
next
  case (2 kvs)
  have "list_all (\<lambda>kv. keys_sorted (snd kv)) (map (\<lambda>kv. (fst kv, sortKeys (snd kv))) kvs)"
    using 2 by (simp add: list_all_iff)
  then have "list_all (\<lambda>kv. keys_sorted (snd kv))
      (sort_key fst (map (\<lambda>kv. (fst kv, sortKeys (snd kv))) kvs))"
    by (simp add: list_all_iff)
  then show ?case by (simp add: sorted_sort_key)
qed

lemma sortKeys_deps_yaml:
  assumes "distinct (map fst d1)" and "distinct (map fst d2)" and "set d1 = set d2"
  shows "sortKeys (deps_yaml d1) = sortKeys (deps_yaml d2)"
proof -
  let ?f = "\<lambda>kv :: string \<times> string. (fst kv, YString (snd kv))"
  have "sort_key fst (map ?f d1) = sort_key fst (map ?f d2)"
  proof (rule sort_key_fst_unique)
    show "distinct (map fst (map ?f d1))" using assms(1) by (simp add: comp_def)
    show "distinct (map fst (map ?f d2))" using assms(2) by (simp add: comp_def)
    show "set (map ?f d1) = set (map ?f d2)" using assms(3) by simp
  qed
  then show ?thesis by (simp add: deps_yaml_def comp_def)
qed

lemma sortKeys_entry_yaml:
  assumes "l_version a = l_version b" and "l_url a = l_url b" and "l_shasum a = l_shasum b"
    and "set (l_dependencies a) = set (l_dependencies b)"
    and "distinct (map fst (l_dependencies a))" and "distinct (map fst (l_dependencies b))"
  shows "sortKeys (entry_yaml a) = sortKeys (entry_yaml b)"
proof -
  have "sortKeys (deps_yaml (l_dependencies a)) = sortKeys (deps_yaml (l_dependencies b))"
    using assms(5,6,4) by (rule sortKeys_deps_yaml)
  then show ?thesis
    unfolding entry_yaml_def sortKeys.simps list.map fst_conv snd_conv
    using assms(1-3) by (simp only:)
qed

text \<open>
  Claim C9: the string that \<^verbatim>\<open>writeLock\<close> writes is a function of what the new lock
  holds. Two new locks with the same keys, each with the same version, URL, shasum and
  dependency ranges, are written as the same string, whatever the order in which the
  entries were inserted and the dependencies listed and whatever \<^verbatim>\<open>yaml.dump\<close> does
  with the value it receives; and that value has its keys in ascending order at every
  depth. (\<^verbatim>\<open>sortKeys\<close> is the function of the specification.)
\<close>

theorem writeLock_depends_on_contents_only:
  assumes "lock_object lk1" and "lock_object lk2"
    and "lock_contents lk1 = lock_contents lk2"
  shows "writeLock dump lk1 = writeLock dump lk2
     \<and> keys_sorted (sortKeys (lock_yaml lk1))"
proof -
  let ?c = "\<lambda>kv :: string \<times> lock_entry. (fst kv, l_version (snd kv), l_url (snd kv),
      l_shasum (snd kv), set (l_dependencies (snd kv)))"
  let ?g = "\<lambda>kv :: string \<times> lock_entry. (fst kv, sortKeys (entry_yaml (snd kv)))"
  have sub: "set (map ?g la) \<subseteq> set (map ?g lb)"
    if "lock_object la" "lock_object lb" "lock_contents la = lock_contents lb" for la lb
  proof
    fix p assume "p \<in> set (map ?g la)"
    then obtain kv where kv: "kv \<in> set la" and p: "p = ?g kv" by auto
    then have "?c kv \<in> lock_contents lb" using that(3) by (auto simp: lock_contents_def)
    then obtain kv' where kv': "kv' \<in> set lb" and same: "?c kv' = ?c kv"
      by (auto simp: lock_contents_def)
    have "distinct (map fst (l_dependencies (snd kv)))"
      using that(1) kv by (auto simp: lock_object_def list_all_iff)
    moreover have "distinct (map fst (l_dependencies (snd kv')))"
      using that(2) kv' by (auto simp: lock_object_def list_all_iff)
    ultimately have "sortKeys (entry_yaml (snd kv')) = sortKeys (entry_yaml (snd kv))"
      using same by (intro sortKeys_entry_yaml) simp_all
    then have "?g kv' = p" using same p by simp
    then show "p \<in> set (map ?g lb)" using kv' by force
  qed
  have "sort_key fst (map ?g lk1) = sort_key fst (map ?g lk2)"
  proof (rule sort_key_fst_unique)
    show "distinct (map fst (map ?g lk1))" using assms(1) by (simp add: lock_object_def comp_def)
    show "distinct (map fst (map ?g lk2))" using assms(2) by (simp add: lock_object_def comp_def)
    show "set (map ?g lk1) = set (map ?g lk2)"
      using sub [OF assms(1,2,3)] sub [OF assms(2,1) assms(3) [symmetric]] by (rule equalityI)
  qed
  then have "sortKeys (lock_yaml lk1) = sortKeys (lock_yaml lk2)"
    by (simp add: lock_yaml_def comp_def)
  then show ?thesis by (simp add: writeLock_def keys_sorted_sortKeys)
qed

text \<open>
  The theorem on two locks that hold the same two entries in opposite orders, one of them
  with its dependencies listed in the opposite order as well.
\<close>

theorem writeLock_depends_on_contents_only_witness:
  "lock_object lock_ab \<and> lock_object lock_ba \<and> lock_contents lock_ab = lock_contents lock_ba
   \<and> map fst lock_ab = rev (map fst lock_ba)
   \<and> writeLock flat_dump lock_ab = writeLock flat_dump lock_ba
   \<and> keys_sorted (sortKeys (lock_yaml lock_ab))"
proof -
  have a: "lock_object lock_ab" by (simp add: lock_object_def lock_ab_def)
  have b: "lock_object lock_ba" by (simp add: lock_object_def lock_ba_def)
  have c: "lock_contents lock_ab = lock_contents lock_ba"
    by (auto simp: lock_contents_def lock_ab_def lock_ba_def)
  have d: "map fst lock_ab = rev (map fst lock_ba)" by (simp add: lock_ab_def lock_ba_def)
  from writeLock_depends_on_contents_only [OF a b c, of flat_dump] a b c d show ?thesis by blast
qed

section \<open>Termination\<close>

text \<open>
  The frame that a demand pushes covers the demand when the version picked for it
  satisfies its range. Then the demands that no frame covers get fewer along every
  path of the recursion, and the depth of the recursion is bounded by the number of
  demands of the registry and the old lock: the resolver returns, on cyclic graphs too.
  A version is only ever picked for the empty range (line 41), so this is the case
  when every version satisfies the empty range.
\<close>

lemma hasCirculation_append:
  "hasCirculation e d r (s @ t) = (hasCirculation e d r s \<or> hasCirculation e d r t)"
  by (simp add: hasCirculation_def list_ex_iff) blast

lemma uncovered_append: "uncovered e (s @ t) \<subseteq> uncovered e s"
  by (auto simp: uncovered_def hasCirculation_append)

lemma finite_uncovered: "finite (uncovered e s)"
  by (simp add: uncovered_def)

lemma card_uncovered: "card (uncovered e s) \<le> length (demand_pairs e)"
proof -
  have "card (uncovered e s) \<le> card (set (demand_pairs e))"
    by (rule card_mono) (auto simp: uncovered_def)
  also have "\<dots> \<le> length (demand_pairs e)" by (rule card_length)
  finally show ?thesis .
qed

lemma acquired_deps_are_demands:
  assumes "acquire e name constraint = Inr manifest" and "map_of manifest v = Some m"
  shows "set (manifest_deps m) \<subseteq> set (demand_pairs e)"
proof (cases "map_of (oldLock e) (lock_key name constraint)")
  case None
  with assms(1) have "map_of (registry e) name = Some manifest"
    by (simp add: acquire_def getItem_def split: option.splits)
  then have "(name, manifest) \<in> set (registry e)" by (rule map_of_SomeD)
  moreover have "(v, m) \<in> set manifest" using assms(2) by (rule map_of_SomeD)
  ultimately show ?thesis by (fastforce simp: demand_pairs_def)
next
  case (Some item)
  with assms(1) have man: "manifest = locked_manifest item"
    by (simp add: acquire_def getItem_def locked_manifest_def)
  with assms(2) have "manifest_deps m = l_dependencies item"
    by (auto simp: locked_manifest_def manifest_deps_def split: if_splits)
  moreover have "(lock_key name constraint, item) \<in> set (oldLock e)"
    using Some by (rule map_of_SomeD)
  ultimately show ?thesis by (fastforce simp: demand_pairs_def)
qed

lemma promise_all_returns:
  assumes "\<And>x s. x \<in> set xs \<Longrightarrow> I s \<Longrightarrow> f x s \<noteq> None"
    and "\<And>x s r s'. x \<in> set xs \<Longrightarrow> I s \<Longrightarrow> f x s = Some (r, s') \<Longrightarrow> I s'"
    and "I s"
  shows "promise_all f xs s \<noteq> None"
  using assms
proof (induction xs arbitrary: s)
  case Nil
  show ?case by simp
next
  case (Cons x xs)
  from Cons.prems(1) [of x s] Cons.prems(3) obtain r s1 where fx: "f x s = Some (r, s1)"
    by auto
  have "I s1" using Cons.prems(2) [of x s r s1] Cons.prems(3) fx by simp
  have "promise_all f xs s1 \<noteq> None"
  proof (rule Cons.IH)
    show "I s1" by fact
  next
    fix y t assume "y \<in> set xs" "I t"
    then show "f y t \<noteq> None" using Cons.prems(1) [of y t] by simp
  next
    fix y t r t' assume "y \<in> set xs" "I t" "f y t = Some (r, t')"
    then show "I t'" using Cons.prems(2) [of y t r t'] by simp
  qed
  then show ?case using fx by (auto split: option.splits)
qed

lemma collectDeps_returns_if_children_return:
  assumes "\<And>manifest matched m st1.
      acquire e name constraint = Inr manifest \<Longrightarrow>
      pickVersion manifest constraint = Inr (Some matched) \<Longrightarrow>
      map_of manifest matched = Some m \<Longrightarrow>
      placement e name constraint matched (Some m) (fst tr) (snd tr) = Next st1 \<Longrightarrow>
      promise_all (\<lambda>(dep, rng). collectDeps k e dep rng)
        (filter (\<lambda>(dep, rng). \<not> hasCirculation e dep rng
            (fst (lock_and_push name constraint matched m (fst tr, st1))))
          (manifest_deps m))
        (lock_and_push name constraint matched m (fst tr, st1)) \<noteq> None"
  shows "collectDeps (Suc k) e name constraint tr \<noteq> None"
proof (cases "acquire e name constraint")
  case (Inl err)
  then show ?thesis by simp
next
  case (Inr manifest)
  show ?thesis
  proof (cases "pickVersion manifest constraint")
    case (Inl err)
    with Inr show ?thesis by simp
  next
    case picked: (Inr pick)
    show ?thesis
    proof (cases pick)
      case None
      with Inr picked show ?thesis by simp
    next
      case (Some matched)
      note pick = picked [unfolded Some]
      show ?thesis
      proof (cases "placement e name constraint matched (map_of manifest matched)
          (fst tr) (snd tr)")
        case Return
        with Inr pick show ?thesis by simp
      next
        case (Throw err)
        with Inr pick show ?thesis by simp
      next
        case (Next st1)
        show ?thesis
        proof (cases "map_of manifest matched")
          case None
          with Inr pick Next show ?thesis by simp
        next
          case m: (Some m)
          from assms [OF Inr pick m] Next m
          have "promise_all (\<lambda>(dep, rng). collectDeps k e dep rng)
            (filter (\<lambda>(dep, rng). \<not> hasCirculation e dep rng
                (fst (lock_and_push name constraint matched m (fst tr, st1))))
              (manifest_deps m))
            (lock_and_push name constraint matched m (fst tr, st1)) \<noteq> None"
            by simp
          then have "descend (collectDeps k e) e name constraint matched (manifest_deps m)
              (lock_and_push name constraint matched m (fst tr, st1)) \<noteq> None"
            by (auto simp: descend_def split: option.splits sum.splits prod.splits)
          with Inr pick Next m show ?thesis by simp
        qed
      qed
    qed
  qed
qed

lemma pushed_frame_covers_demand:
  assumes "satisfies e matched constraint"
  shows "(name, constraint) \<notin>
     uncovered e (fst (lock_and_push name constraint matched m (stack, st1)))"
  using assms by (simp add: uncovered_def lock_and_push_def hasCirculation_append hasCirculation_def)

lemma children_are_uncovered:
  assumes "set deps \<subseteq> set (demand_pairs e)"
  shows "set (filter (\<lambda>(dep, rng). \<not> hasCirculation e dep rng stack) deps) \<subseteq> uncovered e stack"
  using assms by (auto simp: uncovered_def)

lemma demands_return:
  assumes picks: "\<And>name constraint manifest matched.
      acquire e name constraint = Inr manifest \<Longrightarrow>
      pickVersion manifest constraint = Inr (Some matched) \<Longrightarrow>
      satisfies e matched constraint"
  shows "card (uncovered e s0) \<le> n \<Longrightarrow> (d, r) \<in> uncovered e s0 \<Longrightarrow> \<exists>t. fst tr = s0 @ t \<Longrightarrow>
     collectDeps (Suc n) e d r tr \<noteq> None"
proof (induction n arbitrary: s0 d r tr)
  case 0
  then have "uncovered e s0 = {}" by (simp add: finite_uncovered)
  with 0 show ?case by simp
next
  case (Suc n)
  show ?case
  proof (rule collectDeps_returns_if_children_return)
    fix manifest matched m st1
    assume acq: "acquire e d r = Inr manifest"
      and pick: "pickVersion manifest r = Inr (Some matched)"
      and m: "map_of manifest matched = Some m"
    let ?tr1 = "lock_and_push d r matched m (fst tr, st1)"
    let ?s1 = "fst ?tr1"
    let ?children = "filter (\<lambda>(dep, rng). \<not> hasCirculation e dep rng ?s1) (manifest_deps m)"
    from Suc.prems(3) obtain t where t: "fst tr = s0 @ t" by blast
    have s1: "?s1 = s0 @ (t @ [\<lparr>f_name = d, f_version = matched, f_dependencies = manifest_deps m\<rparr>])"
      by (simp add: lock_and_push_def t)
    have "uncovered e ?s1 \<subseteq> uncovered e s0" unfolding s1 by (rule uncovered_append)
    moreover have "(d, r) \<notin> uncovered e ?s1"
      by (rule pushed_frame_covers_demand) (rule picks [OF acq pick])
    ultimately have "uncovered e ?s1 \<subset> uncovered e s0" using Suc.prems(2) by blast
    then have "card (uncovered e ?s1) < card (uncovered e s0)"
      by (rule psubset_card_mono [OF finite_uncovered])
    with Suc.prems(1) have small: "card (uncovered e ?s1) \<le> n" by simp
    have sub: "set ?children \<subseteq> uncovered e ?s1"
      by (rule children_are_uncovered) (rule acquired_deps_are_demands [OF acq m])
    show "promise_all (\<lambda>(dep, rng). collectDeps (Suc n) e dep rng) ?children ?tr1 \<noteq> None"
    proof (rule promise_all_returns [where I = "\<lambda>tr'. \<exists>u. fst tr' = ?s1 @ u"])
      fix x :: "string \<times> string" and s :: traversal
      assume "x \<in> set ?children" and ext: "\<exists>u. fst s = ?s1 @ u"
      then have "(fst x, snd x) \<in> uncovered e ?s1" using sub by auto
      with small have "collectDeps (Suc n) e (fst x) (snd x) s \<noteq> None"
        using ext by (rule Suc.IH)
      then show "(case x of (dep, rng) \<Rightarrow> collectDeps (Suc n) e dep rng) s \<noteq> None"
        by (simp add: case_prod_beta)
    next
      fix x :: "string \<times> string" and s s' :: traversal and res
      assume "\<exists>u. fst s = ?s1 @ u"
        and "(case x of (dep, rng) \<Rightarrow> collectDeps (Suc n) e dep rng) s = Some (res, s')"
      then obtain u where u: "fst s = ?s1 @ u"
        and run: "collectDeps (Suc n) e (fst x) (snd x) s = Some (res, s')"
        by (auto simp: case_prod_beta simp del: collectDeps.simps)
      from collectDeps_extends_stack [OF run] obtain w where "fst s' = fst s @ w" by blast
      with u show "\<exists>u. fst s' = ?s1 @ u" by simp
    qed simp
  qed
qed


lemma any_demand_returns:
  assumes picks: "\<And>name constraint manifest matched.
      acquire e name constraint = Inr manifest \<Longrightarrow>
      pickVersion manifest constraint = Inr (Some matched) \<Longrightarrow>
      satisfies e matched constraint"
  shows "collectDeps (Suc (Suc (length (demand_pairs e)))) e name constraint tr \<noteq> None"
proof (rule collectDeps_returns_if_children_return)
  fix manifest matched m st1
  assume acq: "acquire e name constraint = Inr manifest"
    and m: "map_of manifest matched = Some m"
  let ?n = "length (demand_pairs e)"
  let ?tr1 = "lock_and_push name constraint matched m (fst tr, st1)"
  let ?s1 = "fst ?tr1"
  let ?children = "filter (\<lambda>(dep, rng). \<not> hasCirculation e dep rng ?s1) (manifest_deps m)"
  have sub: "set ?children \<subseteq> uncovered e ?s1"
    by (rule children_are_uncovered) (rule acquired_deps_are_demands [OF acq m])
  show "promise_all (\<lambda>(dep, rng). collectDeps (Suc ?n) e dep rng) ?children ?tr1 \<noteq> None"
  proof (rule promise_all_returns [where I = "\<lambda>tr'. \<exists>u. fst tr' = ?s1 @ u"])
    fix x :: "string \<times> string" and s :: traversal
    assume "x \<in> set ?children" and ext: "\<exists>u. fst s = ?s1 @ u"
    then have "(fst x, snd x) \<in> uncovered e ?s1" using sub by auto
    then have "collectDeps (Suc ?n) e (fst x) (snd x) s \<noteq> None"
      using ext
      by (intro demands_return [where e = e and ?s0.0 = ?s1] card_uncovered) (rule picks)
    then show "(case x of (dep, rng) \<Rightarrow> collectDeps (Suc ?n) e dep rng) s \<noteq> None"
      by (simp add: case_prod_beta)
  next
    fix x :: "string \<times> string" and s s' :: traversal and res
    assume "\<exists>u. fst s = ?s1 @ u"
      and "(case x of (dep, rng) \<Rightarrow> collectDeps (Suc ?n) e dep rng) s = Some (res, s')"
    then obtain u where u: "fst s = ?s1 @ u"
      and run: "collectDeps (Suc ?n) e (fst x) (snd x) s = Some (res, s')"
      by (auto simp: case_prod_beta simp del: collectDeps.simps)
    from collectDeps_extends_stack [OF run] obtain w where "fst s' = fst s @ w" by blast
    with u show "\<exists>u. fst s' = ?s1 @ u" by simp
  qed simp
qed

lemma resolve_section_returns:
  assumes "\<And>name constraint st. collectDeps fuel e name constraint ([], st) \<noteq> None"
  shows "resolve_section fuel e sect st \<noteq> None"
proof (cases sect)
  case None
  then show ?thesis by (simp add: resolve_section_def)
next
  case (Some deps)
  have "promise_all (root_call fuel e) deps st \<noteq> None"
  proof (rule promise_all_returns [where I = "\<lambda>s. True"])
    fix x s
    show "root_call fuel e x s \<noteq> None"
      using assms [of "fst x" "snd x" s] by (auto simp: root_call_def split: option.splits)
  qed simp_all
  with Some show ?thesis
    by (auto simp: resolve_section_def split: option.splits sum.splits prod.splits)
qed

lemma resolution_returns_when_picks_satisfy:
  assumes "\<And>name constraint manifest matched.
      acquire e name constraint = Inr manifest \<Longrightarrow>
      pickVersion manifest constraint = Inr (Some matched) \<Longrightarrow>
      satisfies e matched constraint"
  shows "list_default (Suc (Suc (length (demand_pairs e)))) e rootManifest st \<noteq> None"
proof -
  let ?fuel = "Suc (Suc (length (demand_pairs e)))"
  have sec: "resolve_section ?fuel e sect s \<noteq> None" for sect s
    by (rule resolve_section_returns) (rule any_demand_returns [OF assms])
  from sec [of "pj_dependencies rootManifest" st] obtain r1 st1 where
    one: "resolve_section ?fuel e (pj_dependencies rootManifest) st = Some (r1, st1)"
    by auto
  from sec [of "pj_devDependencies rootManifest" st1] obtain r2 st2 where
    two: "resolve_section ?fuel e (pj_devDependencies rootManifest) st1 = Some (r2, st2)"
    by auto
  show ?thesis
    using one two by (cases r1; cases r2) (simp_all add: list_default_def)
qed

lemma resolution_returns_under_semver_contract:
  assumes "\<And>v. satisfies e v []"
  shows "list_default (Suc (Suc (length (demand_pairs e)))) e rootManifest st \<noteq> None"
proof (rule resolution_returns_when_picks_satisfy)
  fix name constraint manifest matched
  assume "pickVersion manifest constraint = Inr (Some matched)"
  then have "constraint = []" by (auto simp: pickVersion_def Let_def split: if_splits)
  then show "satisfies e matched constraint" using assms by simp
qed

lemma exact_env_contract: "satisfies (exact_env reg old) v []"
  by (simp add: exact_env_def exact_satisfies_def)

lemma cyclic_registry_resolves:
  "list_default (Suc (Suc (length (demand_pairs (exact_env cycle_registry [])))))
     (exact_env cycle_registry []) cycle_root initial_state \<noteq> None
   \<and> (case list_default 5 (exact_env cycle_registry []) cycle_root initial_state of
        None \<Rightarrow> False
      | Some (r, st) \<Rightarrow>
          r = Inr \<lparr>pj_dependencies = Some [(''a'', ''^1.0.0''), (''s'', ''^1.0.0'')],
                   pj_devDependencies = None\<rparr> \<and>
          unsatisfied st = [] \<and>
          map (\<lambda>n. map_option t_version (topLevel st n)) [''a'', ''b'', ''s'']
            = [Some ''1.0.0'', Some ''1.0.0'', Some ''1.0.0''])"
proof
  show "list_default (Suc (Suc (length (demand_pairs (exact_env cycle_registry [])))))
     (exact_env cycle_registry []) cycle_root initial_state \<noteq> None"
    by (rule resolution_returns_under_semver_contract) (rule exact_env_contract)
  show "case list_default 5 (exact_env cycle_registry []) cycle_root initial_state of
        None \<Rightarrow> False
      | Some (r, st) \<Rightarrow>
          r = Inr \<lparr>pj_dependencies = Some [(''a'', ''^1.0.0''), (''s'', ''^1.0.0'')],
                   pj_devDependencies = None\<rparr> \<and>
          unsatisfied st = [] \<and>
          map (\<lambda>n. map_option t_version (topLevel st n)) [''a'', ''b'', ''s'']
            = [Some ''1.0.0'', Some ''1.0.0'', Some ''1.0.0'']"
    by code_simp
qed

text \<open>
  With a pre-release as the last version of \<open>s\<close>, the version picked for the empty
  range does not satisfy the empty range: no frame of \<open>s\<close> ever covers the demand
  of \<open>s\<close> for itself, and every call recurses once more.
\<close>

lemma beta_no_circulation:
  assumes "list_all (\<lambda>fr. f_version fr = ''1.0.0-beta'') stack"
  shows "\<not> hasCirculation (prerelease_env beta_registry []) ''s'' [] stack"
  using assms
  by (induction stack)
    (simp_all add: hasCirculation_def prerelease_env_def prerelease_satisfies_def
      has_prerelease_def)

lemma beta_placement:
  assumes "beta_traversal (stack, st)"
  shows "\<exists>st1. placement (prerelease_env beta_registry []) ''s'' [] ''1.0.0-beta''
            (Some (pkg ''s.tgz'' [(''s'', [])])) stack st = Next st1
          \<and> (\<exists>t. topLevel st1 ''s'' = Some t \<and> t_version t = ''1.0.0-beta'')"
  using assms
  by (auto simp: beta_traversal_def placement_def at_last_def prerelease_env_def
      prerelease_satisfies_def has_prerelease_def split: option.splits)

lemma beta_step:
  assumes "beta_traversal (stack, st)"
  shows "\<exists>tr1. beta_traversal tr1 \<and>
     collectDeps (Suc fuel) (prerelease_env beta_registry []) ''s'' [] (stack, st) =
       (case collectDeps fuel (prerelease_env beta_registry []) ''s'' [] tr1 of
          None \<Rightarrow> None
        | Some (Inl err, tr3) \<Rightarrow> Some (Inl err, tr3)
        | Some (Inr v, tr3) \<Rightarrow> Some (Inr (Some (''s'', ''^1.0.0-beta'')), tr3))"
proof -
  let ?E = "prerelease_env beta_registry []"
  let ?m = "pkg ''s.tgz'' [(''s'', [])]"
  from beta_placement [OF assms] obtain st1 t where
    pl: "placement ?E ''s'' [] ''1.0.0-beta'' (Some ?m) stack st = Next st1"
    and top: "topLevel st1 ''s'' = Some t" "t_version t = ''1.0.0-beta''"
    by blast
  let ?tr1 = "lock_and_push ''s'' [] ''1.0.0-beta'' ?m (stack, st1)"
  have frames: "list_all (\<lambda>fr. f_version fr = ''1.0.0-beta'') (fst ?tr1)"
    using assms by (simp add: lock_and_push_def beta_traversal_def)
  have inv: "beta_traversal ?tr1"
    using frames top by (simp add: beta_traversal_def) (simp add: lock_and_push_def)
  have acq: "acquire ?E ''s'' [] = Inr [(''1.0.0-beta'', ?m)]"
    by (simp add: acquire_def getItem_def prerelease_env_def beta_registry_def lock_key_def)
  have pick: "pickVersion [(''1.0.0-beta'', ?m)] [] = Inr (Some ''1.0.0-beta'')"
    by (simp add: pickVersion_def at_last_def)
  have deps: "manifest_deps ?m = [(''s'', [])]" by (simp add: manifest_deps_def pkg_def)
  have children: "filter (\<lambda>(dep, rng). \<not> hasCirculation ?E dep rng (fst ?tr1)) [(''s'', [])]
      = [(''s'', [])]"
    using beta_no_circulation [OF frames] by simp
  have "collectDeps (Suc fuel) ?E ''s'' [] (stack, st) =
      descend (collectDeps fuel ?E) ?E ''s'' [] ''1.0.0-beta'' [(''s'', [])] ?tr1"
    using acq pick pl deps by simp
  also have "\<dots> = (case collectDeps fuel ?E ''s'' [] ?tr1 of
          None \<Rightarrow> None
        | Some (Inl err, tr3) \<Rightarrow> Some (Inl err, tr3)
        | Some (Inr v, tr3) \<Rightarrow> Some (Inr (Some (''s'', ''^1.0.0-beta'')), tr3))"
    unfolding descend_def Let_def children
    by (auto simp: settle_def split: option.splits sum.splits prod.splits)
  finally show ?thesis using inv by blast
qed

lemma beta_never_returns:
  "beta_traversal tr \<Longrightarrow> collectDeps fuel (prerelease_env beta_registry []) ''s'' [] tr = None"
proof (induction fuel arbitrary: tr)
  case 0
  show ?case by simp
next
  case (Suc fuel)
  obtain stack st where tr: "tr = (stack, st)" by (cases tr)
  from beta_step [of stack st fuel] Suc.prems tr obtain tr1 where
    inv: "beta_traversal tr1"
    and eq: "collectDeps (Suc fuel) (prerelease_env beta_registry []) ''s'' [] tr =
       (case collectDeps fuel (prerelease_env beta_registry []) ''s'' [] tr1 of
          None \<Rightarrow> None
        | Some (Inl err, tr3) \<Rightarrow> Some (Inl err, tr3)
        | Some (Inr v, tr3) \<Rightarrow> Some (Inr (Some (''s'', ''^1.0.0-beta'')), tr3))"
    by blast
  show ?case unfolding eq Suc.IH [OF inv] by simp
qed

text \<open>
  Claim C5: resolution is said to terminate for every dependency graph over a finite
  registry, self-cycles included, because a dependency is skipped when a frame of the
  stack has its name and a version that satisfies its range. For the empty range the
  source takes the last version of the manifest without asking \<^verbatim>\<open>semver\<close>, and
  \<^verbatim>\<open>hasCirculation\<close> then asks whether that version satisfies the empty range. In
  the registry whose package \<open>s\<close> has the single version 1.0.0-beta, which depends on
  \<open>s\<close> without a range, the answer is no: the resolver does not return, whatever the
  depth granted to the recursion.
\<close>

theorem resolution_of_prerelease_self_cycle_never_returns:
  "list_default fuel (prerelease_env beta_registry []) beta_root initial_state = None"
proof -
  have "beta_traversal ([], initial_state)"
    by (simp add: beta_traversal_def initial_state_def)
  then have "collectDeps fuel (prerelease_env beta_registry []) ''s'' [] ([], initial_state) = None"
    by (rule beta_never_returns)
  then show ?thesis
    by (simp add: list_default_def resolve_section_def beta_root_def root_call_def)
qed

end
